theory Spec2Isabelle
  imports Complex_Main "HOL-Library.Log_Nat" "HOL-Library.Word" "HOL-Library.Signed_Division"
begin

section \<open>IEEE-754 arithmetic of the C++ types float and double\<close>

text \<open>
  The source computes in \<^verbatim>\<open>float\<close> (binary32) and, in two places, in \<^verbatim>\<open>double\<close>
  (binary64). A value is a sign bit with an exact rational magnitude, an infinity or a
  NaN; every operation computes the exact result and rounds it to the format, to nearest
  with ties to even. Signed zeros are kept (sign bit with magnitude 0). NaN payloads are
  not distinguished.
\<close>

datatype ieee = Finite bool rat | Infinity bool | NaN

record format =
  prec :: nat
  emin :: int
  emax :: int

definition binary32 :: format where
  "binary32 = \<lparr>prec = 24, emin = - 126, emax = 127\<rparr>"

definition binary64 :: format where
  "binary64 = \<lparr>prec = 53, emin = - 1022, emax = 1023\<rparr>"

text \<open>\<open>ilog2 q\<close> is the binary exponent of a positive rational: \<open>2^e \<le> q < 2^(e+1)\<close>.\<close>

definition ilog2 :: "rat \<Rightarrow> int" where
  "ilog2 q = (case quotient_of q of (a, b) \<Rightarrow>
     let d = bitlen a - bitlen b in if 2 powi d \<le> q then d else d - 1)"

text \<open>Rounding to the nearest integer, ties to the even one.\<close>

definition rne :: "rat \<Rightarrow> int" where
  "rne q = (let n = \<lfloor>q\<rfloor>; r = q - of_int n in
     if r < 1 / 2 then n else if 1 / 2 < r then n + 1 else if even n then n else n + 1)"

text \<open>
  Rounding a magnitude to a format: the unit in the last place comes from the exponent of
  the magnitude, or from \<open>emin\<close> in the subnormal range; \<open>None\<close> is overflow (the
  rounded magnitude has an exponent above \<open>emax\<close>).
\<close>

definition round_mag :: "format \<Rightarrow> rat \<Rightarrow> rat option" where
  "round_mag f m = (if m = 0 then Some 0 else
     let e = max (ilog2 m) (emin f);
         u = 2 powi (e - int (prec f) + 1);
         r = of_int (rne (m / u)) * u
     in if ilog2 r \<le> emax f then Some r else None)"

definition round_to :: "format \<Rightarrow> bool \<Rightarrow> rat \<Rightarrow> ieee" where
  "round_to f s m = (case round_mag f m of None \<Rightarrow> Infinity s | Some r \<Rightarrow> Finite s r)"

definition signed :: "bool \<Rightarrow> rat \<Rightarrow> rat" where
  "signed s m = (if s then - m else m)"

fun fneg :: "ieee \<Rightarrow> ieee" where
  "fneg (Finite s m) = Finite (\<not> s) m"
| "fneg (Infinity s) = Infinity (\<not> s)"
| "fneg NaN = NaN"

fun fadd :: "format \<Rightarrow> ieee \<Rightarrow> ieee \<Rightarrow> ieee" where
  "fadd f (Finite s m) (Finite t n) =
     (let v = signed s m + signed t n
      in if v = 0 then Finite (s \<and> t) 0 else round_to f (v < 0) \<bar>v\<bar>)"
| "fadd f (Finite s m) (Infinity t) = Infinity t"
| "fadd f (Infinity s) (Finite t n) = Infinity s"
| "fadd f (Infinity s) (Infinity t) = (if s = t then Infinity s else NaN)"
| "fadd f NaN y = NaN"
| "fadd f x NaN = NaN"

definition fsub :: "format \<Rightarrow> ieee \<Rightarrow> ieee \<Rightarrow> ieee" where
  "fsub f x y = fadd f x (fneg y)"

fun fmul :: "format \<Rightarrow> ieee \<Rightarrow> ieee \<Rightarrow> ieee" where
  "fmul f (Finite s m) (Finite t n) = round_to f (s \<noteq> t) (m * n)"
| "fmul f (Finite s m) (Infinity t) = (if m = 0 then NaN else Infinity (s \<noteq> t))"
| "fmul f (Infinity s) (Finite t n) = (if n = 0 then NaN else Infinity (s \<noteq> t))"
| "fmul f (Infinity s) (Infinity t) = Infinity (s \<noteq> t)"
| "fmul f NaN y = NaN"
| "fmul f x NaN = NaN"

fun fdiv :: "format \<Rightarrow> ieee \<Rightarrow> ieee \<Rightarrow> ieee" where
  "fdiv f (Finite s m) (Finite t n) =
     (if n = 0 then (if m = 0 then NaN else Infinity (s \<noteq> t))
      else round_to f (s \<noteq> t) (m / n))"
| "fdiv f (Finite s m) (Infinity t) = Finite (s \<noteq> t) 0"
| "fdiv f (Infinity s) (Finite t n) = Infinity (s \<noteq> t)"
| "fdiv f (Infinity s) (Infinity t) = NaN"
| "fdiv f NaN y = NaN"
| "fdiv f x NaN = NaN"

text \<open>The comparison \<^verbatim>\<open><\<close>: false whenever an operand is NaN; the two zeros are equal.\<close>

fun flt :: "ieee \<Rightarrow> ieee \<Rightarrow> bool" where
  "flt (Finite s m) (Finite t n) = (signed s m < signed t n)"
| "flt (Finite s m) (Infinity t) = (\<not> t)"
| "flt (Infinity s) (Finite t n) = s"
| "flt (Infinity s) (Infinity t) = (s \<and> \<not> t)"
| "flt NaN y = False"
| "flt x NaN = False"

text \<open>Conversion between the formats (a cast), and from an \<^verbatim>\<open>int\<close>.\<close>

fun cvt :: "format \<Rightarrow> ieee \<Rightarrow> ieee" where
  "cvt f (Finite s m) = round_to f s m"
| "cvt f (Infinity s) = Infinity s"
| "cvt f NaN = NaN"

definition of_int_fmt :: "format \<Rightarrow> int \<Rightarrow> ieee" where
  "of_int_fmt f i = round_to f (i < 0) (of_int \<bar>i\<bar>)"

text \<open>A decimal literal of type \<^verbatim>\<open>double\<close>, such as \<^verbatim>\<open>1e-30\<close>.\<close>

definition literal :: "rat \<Rightarrow> ieee" where
  "literal q = round_to binary64 (q < 0) \<bar>q\<bar>"

text \<open>\<^verbatim>\<open>pow(2, n)\<close> of the C library, exact on these arguments, as a \<^verbatim>\<open>double\<close>.\<close>

definition pow2 :: "int \<Rightarrow> ieee" where
  "pow2 n = round_to binary64 False (2 powi n)"

definition is_nan_or_inf :: "ieee \<Rightarrow> bool" where
  "is_nan_or_inf x = (case x of Finite s m \<Rightarrow> False | _ \<Rightarrow> True)"

section \<open>The C++ type int\<close>

text \<open>
  An \<^verbatim>\<open>int\<close> has 32 bits. The arguments \<open>N\<close>, \<open>K\<close>, \<open>M\<close> of the host functions are
  integers that the caller takes from the range of \<^verbatim>\<open>int\<close>; the value of a sum or
  product of type \<^verbatim>\<open>int\<close> is \<open>int32\<close> of the exact result, which is the exact result
  when that is in range and the two's complement wrap-around otherwise (the C++ standard
  leaves the overflow undefined).
\<close>

definition int32 :: "int \<Rightarrow> int" where
  "int32 x = sint (word_of_int x :: 32 word)"

section \<open>Device memory\<close>

text \<open>
  Device memory is a store of \<^verbatim>\<open>float\<close> cells; a \<^verbatim>\<open>float*\<close> is the number of a
  cell and 0 is the null pointer. \<^verbatim>\<open>cudaMalloc\<close> hands out fresh cells above every cell
  handed out before and records the block as live; \<^verbatim>\<open>cudaFree\<close> removes it from the
  live blocks. A request fails when the size is negative (as a \<^verbatim>\<open>size_t\<close> it is then
  larger than any device) or when the device has no room.
\<close>

type_synonym ptr = nat
type_synonym memory = "nat \<Rightarrow> ieee"

record gpu =
  mem :: memory
  live :: "(ptr \<times> nat) list"
  brk :: nat
  cap :: nat

definition cudaMalloc :: "'a gpu_scheme \<Rightarrow> int \<Rightarrow> (ptr \<times> 'a gpu_scheme) option" where
  "cudaMalloc g n =
     (if n < 0 \<or> cap g < Suc (brk g) + nat n then None
      else Some (Suc (brk g),
                 g\<lparr>live := (Suc (brk g), nat n) # live g, brk := Suc (brk g) + nat n\<rparr>))"

definition cudaFree :: "'a gpu_scheme \<Rightarrow> ptr \<Rightarrow> 'a gpu_scheme" where
  "cudaFree g p = g\<lparr>live := filter (\<lambda>b. fst b \<noteq> p) (live g)\<rparr>"

text \<open>The hard stop of \<^verbatim>\<open>gpuErrchk\<close> and \<^verbatim>\<open>assert\<close>.\<close>

datatype error = Abort

text \<open>The cells \<open>p, ..., p + n - 1\<close> of a buffer of \<open>n\<close> floats at \<open>p\<close>.\<close>

definition in_buf :: "ptr \<Rightarrow> int \<Rightarrow> nat \<Rightarrow> bool" where
  "in_buf p n x = (p \<le> x \<and> int x < int p + n)"

subsection \<open>Vector primitives\<close>

text \<open>
  Modelled from the spec: the namespace \<^verbatim>\<open>vector\<close> is not part of the source file. The
  spec gives its capability as elementwise \<^verbatim>\<open>subtract(a, b, out, len)\<close>,
  \<^verbatim>\<open>scale(buf, factor, out, len)\<close> and \<^verbatim>\<open>copy(dst, src, len)\<close> over device buffers.
  Each output cell is computed from the input cells of the same index.
\<close>

definition vector_sub :: "memory \<Rightarrow> ptr \<Rightarrow> ptr \<Rightarrow> ptr \<Rightarrow> int \<Rightarrow> memory" where
  "vector_sub m a b out n =
     (\<lambda>x. if in_buf out n x then fsub binary32 (m (a + (x - out))) (m (b + (x - out))) else m x)"

definition vector_mult :: "memory \<Rightarrow> ptr \<Rightarrow> ieee \<Rightarrow> ptr \<Rightarrow> int \<Rightarrow> memory" where
  "vector_mult m a c out n =
     (\<lambda>x. if in_buf out n x then fmul binary32 (m (a + (x - out))) c else m x)"

definition vector_copy :: "memory \<Rightarrow> ptr \<Rightarrow> ptr \<Rightarrow> int \<Rightarrow> memory" where
  "vector_copy m dst src n = (\<lambda>x. if in_buf dst n x then m (src + (x - dst)) else m x)"

section \<open>The Jacobian estimators\<close>

text \<open>
  The host state of an estimator call: the device, the parameter vector (a host array)
  and, as a record of the calls made, the parameter vector seen by each call of the model
  evaluator, in order.

  A model evaluator \<^verbatim>\<open>void f(float* A, float* param, int N)\<close> follows the evaluator
  contract: it writes \<open>A[0..N-1]\<close> with values that depend on the parameter vector and
  \<open>N\<close> only, and does nothing else. It is given by the value it writes at each index.
\<close>

record host = gpu +
  param :: "ieee list"
  evals :: "ieee list list"

type_synonym model = "ieee list \<Rightarrow> int \<Rightarrow> nat \<Rightarrow> ieee"

definition call_model :: "model \<Rightarrow> ptr \<Rightarrow> int \<Rightarrow> host \<Rightarrow> host" where
  "call_model f A N s =
     s\<lparr>mem := (\<lambda>x. if in_buf A N x then f (param s) N (x - A) else mem s x),
       evals := evals s @ [param s]\<rparr>"

text \<open>\<^verbatim>\<open>const float eps = pow(2,-17)\<close> and \<^verbatim>\<open>float(1./eps)\<close> of \<^verbatim>\<open>jacobian\<close>.\<close>

definition eps17 :: ieee where
  "eps17 = cvt binary32 (pow2 (- 17))"

definition inv_eps17 :: ieee where
  "inv_eps17 = cvt binary32 (fdiv binary64 (literal 1) (cvt binary64 eps17))"

text \<open>
  One iteration of the loop of \<^verbatim>\<open>jacobian\<close>, for the parameter \<open>i\<close>. The column is
  at \<^verbatim>\<open>&J[i * N]\<close>, with the product in \<^verbatim>\<open>int\<close>.
\<close>

definition jacobian_iter :: "model \<Rightarrow> ptr \<Rightarrow> ptr \<Rightarrow> ptr \<Rightarrow> int \<Rightarrow> int \<Rightarrow> host \<Rightarrow> host" where
  "jacobian_iter f J prev next N i s =
     (let temp = param s ! nat i;
          s1 = s\<lparr>param := (param s)[nat i := fadd binary32 (param s ! nat i) eps17]\<rparr>;
          s2 = call_model f next N s1;
          s3 = s2\<lparr>mem := vector_sub (mem s2) next prev (nat (int J + int32 (i * N))) N\<rparr>
      in s3\<lparr>param := (param s3)[nat i := temp]\<rparr>)"

function jacobian_loop :: "model \<Rightarrow> ptr \<Rightarrow> ptr \<Rightarrow> ptr \<Rightarrow> int \<Rightarrow> int \<Rightarrow> int \<Rightarrow> host \<Rightarrow> host" where
  "jacobian_loop f J prev next N K i s =
     (if i < K then jacobian_loop f J prev next N K (i + 1) (jacobian_iter f J prev next N i s)
      else s)"
  by pat_completeness auto
termination
  by (relation "measure (\<lambda>(f, J, prev, next, N, K, i, s). nat (K - i))") auto

declare jacobian_loop.simps [simp del]

definition jacobian :: "ptr \<Rightarrow> model \<Rightarrow> int \<Rightarrow> int \<Rightarrow> host \<Rightarrow> error + host" where
  "jacobian J f N K s =
     (case cudaMalloc s N of None \<Rightarrow> Inl Abort | Some (prev, s1) \<Rightarrow>
      case cudaMalloc s1 N of None \<Rightarrow> Inl Abort | Some (next, s2) \<Rightarrow>
        let s3 = call_model f prev N s2;
            s4 = jacobian_loop f J prev next N K 0 s3;
            s5 = s4\<lparr>mem := vector_mult (mem s4) J inv_eps17 J (int32 (N * K))\<rparr>;
            s6 = (if prev \<noteq> 0 then cudaFree s5 prev else s5);
            s7 = (if next \<noteq> 0 then cudaFree s6 next else s6)
        in Inr s7)"

text \<open>
  \<^verbatim>\<open>jacobian_v2\<close>: \<^verbatim>\<open>const float eps = pow(2,-10)\<close>, the step \<^verbatim>\<open>dB\<close> with its guard
  \<^verbatim>\<open>if (dB < 1e-31 && dB > -1e-31) dB = 1e-30\<close> (the comparisons are made in
  \<^verbatim>\<open>double\<close>, the assignment converts the literal to \<^verbatim>\<open>float\<close>), and
  \<^verbatim>\<open>scale = (float) (1./((double)temp * eps))\<close>.
\<close>

definition eps10 :: ieee where
  "eps10 = cvt binary32 (pow2 (- 10))"

definition lit_1e31 :: ieee where
  "lit_1e31 = literal (1 / 10 ^ 31)"

definition lit_1e30 :: ieee where
  "lit_1e30 = literal (1 / 10 ^ 30)"

definition too_small :: "ieee \<Rightarrow> bool" where
  "too_small dB = (flt (cvt binary64 dB) lit_1e31 \<and> flt (fneg lit_1e31) (cvt binary64 dB))"

definition step_v2 :: "ieee \<Rightarrow> ieee" where
  "step_v2 p =
     (let dB = fmul binary32 p eps10
      in if too_small dB then cvt binary32 lit_1e30 else dB)"

definition scale_v2 :: "ieee \<Rightarrow> ieee" where
  "scale_v2 temp =
     cvt binary32 (fdiv binary64 (literal 1) (fmul binary64 (cvt binary64 temp) (cvt binary64 eps10)))"

text \<open>One iteration of the loop of \<^verbatim>\<open>jacobian_v2\<close>, for the parameter \<open>i\<close>.\<close>

definition jacobian_v2_iter :: "model \<Rightarrow> ptr \<Rightarrow> ptr \<Rightarrow> ptr \<Rightarrow> int \<Rightarrow> int \<Rightarrow> host \<Rightarrow> host" where
  "jacobian_v2_iter f J prev next N i s =
     (let temp = param s ! nat i;
          dB = step_v2 (param s ! nat i);
          s1 = s\<lparr>param := (param s)[nat i := fadd binary32 (param s ! nat i) dB]\<rparr>;
          scale = scale_v2 temp;
          s2 = call_model f next N s1;
          col = nat (int J + int32 (i * N));
          s3 = s2\<lparr>mem := vector_sub (mem s2) next prev col N\<rparr>;
          s4 = s3\<lparr>mem := vector_mult (mem s3) col scale col N\<rparr>
      in s4\<lparr>param := (param s4)[nat i := temp]\<rparr>)"

function jacobian_v2_loop :: "model \<Rightarrow> ptr \<Rightarrow> ptr \<Rightarrow> ptr \<Rightarrow> int \<Rightarrow> int \<Rightarrow> int \<Rightarrow> host \<Rightarrow> host" where
  "jacobian_v2_loop f J prev next N K i s =
     (if i < K then
        jacobian_v2_loop f J prev next N K (i + 1) (jacobian_v2_iter f J prev next N i s)
      else s)"
  by pat_completeness auto
termination
  by (relation "measure (\<lambda>(f, J, prev, next, N, K, i, s). nat (K - i))") auto

declare jacobian_v2_loop.simps [simp del]

definition jacobian_v2 :: "ptr \<Rightarrow> model \<Rightarrow> int \<Rightarrow> int \<Rightarrow> host \<Rightarrow> error + host" where
  "jacobian_v2 J f N K s =
     (case cudaMalloc s N of None \<Rightarrow> Inl Abort | Some (prev, s1) \<Rightarrow>
      case cudaMalloc s1 N of None \<Rightarrow> Inl Abort | Some (next, s2) \<Rightarrow>
        let s3 = call_model f prev N s2;
            s4 = jacobian_v2_loop f J prev next N K 0 s3;
            s5 = (if prev \<noteq> 0 then cudaFree s4 prev else s4);
            s6 = (if next \<noteq> 0 then cudaFree s5 next else s5)
        in Inr s6)"

text \<open>
  The affine evaluator \<^verbatim>\<open>flinear\<close>: the thread of index \<open>i < N\<close> of its kernel stores
  \<^verbatim>\<open>a * i + b\<close> in \<^verbatim>\<open>A[i]\<close>, with \<^verbatim>\<open>a = param[0]\<close> and \<^verbatim>\<open>b = param[1]\<close>.
\<close>

definition flinear :: model where
  "flinear p N i =
     fadd binary32 (fmul binary32 (p ! 0) (of_int_fmt binary32 (int i))) (p ! 1)"

section \<open>Kernel launches and the design-matrix builder\<close>

text \<open>
  The limits of a launch \<^verbatim>\<open><<<grid, threads>>>\<close> with \<open>grid = (x, y, 1)\<close> and
  \<open>threads = (x, y, 1)\<close>: no dimension is zero, the grid has at most \<open>2^31 - 1\<close> blocks
  in \<open>x\<close> and 65535 in \<open>y\<close>, and a block has at most 1024 threads. A launch outside
  the limits is refused: no thread runs, and the error it sets is not looked at by the
  source.
\<close>

definition launch_ok :: "nat \<times> nat \<Rightarrow> nat \<times> nat \<Rightarrow> bool" where
  "launch_ok grid threads =
     (0 < fst grid \<and> fst grid \<le> 2147483647 \<and> 0 < snd grid \<and> snd grid \<le> 65535 \<and>
      0 < fst threads \<and> 0 < snd threads \<and> fst threads * snd threads \<le> 1024)"

text \<open>
  A launch \<^verbatim>\<open>kernel<<<blocks, threads>>>\<close> with two numbers has the grid \<open>(blocks, 1, 1)\<close>
  and the block \<open>(threads, 1, 1)\<close>. Within the limits it runs the kernel once for every
  block index below \<open>blocks\<close> and thread index below \<open>threads\<close>; the model runs the
  threads in index order. The index arithmetic of a kernel is that of \<^verbatim>\<open>unsigned int\<close>,
  a 32-bit word, read back as an \<^verbatim>\<open>int\<close> where the source declares one.
\<close>

definition launch :: "nat \<Rightarrow> nat \<Rightarrow> (nat \<Rightarrow> nat \<Rightarrow> nat \<Rightarrow> memory \<Rightarrow> memory) \<Rightarrow> memory \<Rightarrow> memory" where
  "launch blocks threads kern m =
     (if launch_ok (blocks, 1) (threads, 1)
      then foldl (\<lambda>m (b, t). kern threads b t m) m (List.product [0..<blocks] [0..<threads])
      else m)"

text \<open>
  The kernel \<^verbatim>\<open>lincoef_\<close> (\<open>lincoef_kernel\<close>). Only the store \<^verbatim>\<open>A[i] = i\<close> is under the \<^verbatim>\<open>if\<close>: the
  source has no braces, so \<^verbatim>\<open>A[N+i] = 1\<close> is the statement after it and runs in every
  thread. The index \<^verbatim>\<open>N+i\<close> is a sum in \<^verbatim>\<open>int\<close>.
\<close>

definition lincoef_kernel :: "ptr \<Rightarrow> int \<Rightarrow> nat \<Rightarrow> nat \<Rightarrow> nat \<Rightarrow> memory \<Rightarrow> memory" where
  "lincoef_kernel A N blockDim blockIdx threadIdx m =
     (let i = sint (of_nat blockDim * of_nat blockIdx + of_nat threadIdx :: 32 word);
          m1 = (if i < N then m(nat (int A + i) := of_int_fmt binary32 i) else m)
      in m1(nat (int A + int32 (N + i)) := of_int_fmt binary32 1))"

text \<open>
  The host function \<^verbatim>\<open>lincoef\<close>. The constant \<^verbatim>\<open>threadsPerBlock\<close> is declared in a
  header that is not part of the source file and is a parameter here. The number of
  blocks is computed in \<^verbatim>\<open>int\<close>, with the division of C, which truncates, and
  converted to the \<^verbatim>\<open>unsigned int\<close> of the launch.
\<close>

definition lincoef :: "nat \<Rightarrow> ptr \<Rightarrow> int \<Rightarrow> 'a gpu_scheme \<Rightarrow> 'a gpu_scheme" where
  "lincoef threadsPerBlock A N g =
     (let blocksPerGrid = int32 (N + int threadsPerBlock - 1) sdiv int threadsPerBlock
      in g\<lparr>mem := launch (unat (word_of_int blocksPerGrid :: 32 word)) threadsPerBlock
                     (lincoef_kernel A N) (mem g)\<rparr>)"

section \<open>Matrix primitives\<close>

subsection \<open>Transpose\<close>

text \<open>
  The kernel \<^verbatim>\<open>transpose_\<close> (\<open>transpose_kernel\<close>) runs on a two-dimensional grid of two-dimensional
  blocks; a block or thread index is the pair of its \<open>x\<close> and \<open>y\<close> components. The
  constant \<^verbatim>\<open>BLOCK_DIM\<close> is declared in a header that is not part of the source file
  and is a parameter here. The shared array \<^verbatim>\<open>block[BLOCK_DIM][BLOCK_DIM+1]\<close> of a
  block is a map from (row, column) to its entry. The part of a thread before
  \<^verbatim>\<open>__syncthreads()\<close> is \<open>transpose_load\<close>, the part after it \<open>transpose_store\<close>:
  every thread of a block finishes the first part before any thread starts the second.
  The comparisons \<^verbatim>\<open>xIndex < M\<close> convert the \<^verbatim>\<open>int\<close> to \<^verbatim>\<open>unsigned int\<close>.
\<close>

type_synonym tile = "nat \<times> nat \<Rightarrow> ieee"

definition transpose_load ::
    "nat \<Rightarrow> ptr \<Rightarrow> int \<Rightarrow> int \<Rightarrow> nat \<times> nat \<Rightarrow> nat \<times> nat \<Rightarrow> memory \<Rightarrow> tile \<Rightarrow> tile" where
  "transpose_load BLOCK_DIM A M N blockIdx threadIdx m block =
     (let xIndex = (of_nat (fst blockIdx) * of_nat BLOCK_DIM + of_nat (fst threadIdx) :: 32 word);
          yIndex = (of_nat (snd blockIdx) * of_nat BLOCK_DIM + of_nat (snd threadIdx) :: 32 word)
      in if xIndex < word_of_int M \<and> yIndex < word_of_int N
         then block((snd threadIdx, fst threadIdx) :=
                m (A + unat (yIndex * word_of_int M + xIndex)))
         else block)"

definition transpose_store ::
    "nat \<Rightarrow> ptr \<Rightarrow> int \<Rightarrow> int \<Rightarrow> nat \<times> nat \<Rightarrow> nat \<times> nat \<Rightarrow> tile \<Rightarrow> memory \<Rightarrow> memory" where
  "transpose_store BLOCK_DIM B M N blockIdx threadIdx block m =
     (let xIndex = (of_nat (snd blockIdx) * of_nat BLOCK_DIM + of_nat (fst threadIdx) :: 32 word);
          yIndex = (of_nat (fst blockIdx) * of_nat BLOCK_DIM + of_nat (snd threadIdx) :: 32 word)
      in if xIndex < word_of_int N \<and> yIndex < word_of_int M
         then m(B + unat (yIndex * word_of_int N + xIndex) := block (fst threadIdx, snd threadIdx))
         else m)"

text \<open>
  One block of the kernel: its threads load the tile, then store it. The shared array
  starts with the arbitrary contents \<open>block0\<close>.
\<close>

definition transpose_block ::
    "nat \<Rightarrow> tile \<Rightarrow> ptr \<Rightarrow> ptr \<Rightarrow> int \<Rightarrow> int \<Rightarrow> memory \<Rightarrow> nat \<times> nat \<Rightarrow> memory" where
  "transpose_block BLOCK_DIM block0 A B M N m blockIdx =
     (let threads = List.product [0..<BLOCK_DIM] [0..<BLOCK_DIM];
          block = foldl (\<lambda>blk t. transpose_load BLOCK_DIM A M N blockIdx t m blk) block0 threads
      in foldl (\<lambda>m t. transpose_store BLOCK_DIM B M N blockIdx t block m) m threads)"

text \<open>
  The launch \<^verbatim>\<open>transpose_<<<grid, threads>>>(A, B, M, N)\<close> with
  \<open>threads = (BLOCK_DIM, BLOCK_DIM, 1)\<close>; the model runs the blocks one after the other.
\<close>

definition transpose_kernel ::
    "nat \<Rightarrow> tile \<Rightarrow> nat \<times> nat \<Rightarrow> ptr \<Rightarrow> ptr \<Rightarrow> int \<Rightarrow> int \<Rightarrow> memory \<Rightarrow> memory" where
  "transpose_kernel BLOCK_DIM block0 grid A B M N m =
     (if launch_ok grid (BLOCK_DIM, BLOCK_DIM)
      then foldl (transpose_block BLOCK_DIM block0 A B M N) m
             (List.product [0..<fst grid] [0..<snd grid])
      else m)"

text \<open>
  The host function \<^verbatim>\<open>matrix::transpose\<close>. When \<^verbatim>\<open>A == B\<close> it allocates \<open>C\<close>,
  copies \<open>A\<close> into it and transposes from the copy. The grid dimensions are computed
  in \<^verbatim>\<open>int\<close>, with the division of C, and converted to the \<^verbatim>\<open>unsigned int\<close> of
  \<^verbatim>\<open>dim3\<close>. The function ends after the launch: there is no check of the launch and no
  \<^verbatim>\<open>cudaFree\<close> in it.
\<close>

definition matrix_transpose ::
    "nat \<Rightarrow> tile \<Rightarrow> ptr \<Rightarrow> ptr \<Rightarrow> int \<Rightarrow> int \<Rightarrow> 'a gpu_scheme \<Rightarrow> error + 'a gpu_scheme" where
  "matrix_transpose BLOCK_DIM block0 A B M N g =
     (let grid =
            (unat (word_of_int (int32 (M - 1 + int BLOCK_DIM) sdiv int BLOCK_DIM) :: 32 word),
             unat (word_of_int (int32 (N - 1 + int BLOCK_DIM) sdiv int BLOCK_DIM) :: 32 word))
      in if A = B then
           (case cudaMalloc g (int32 (M * N)) of
              None \<Rightarrow> Inl Abort
            | Some (C, g1) \<Rightarrow>
                let g2 = g1\<lparr>mem := vector_copy (mem g1) C A (int32 (M * N))\<rparr>
                in Inr (g2\<lparr>mem := transpose_kernel BLOCK_DIM block0 grid C B M N (mem g2)\<rparr>))
         else Inr (g\<lparr>mem := transpose_kernel BLOCK_DIM block0 grid A B M N (mem g)\<rparr>))"

text \<open>
  What the transpose is to compute, in the spec's words: the buffer at \<open>B\<close> holds the
  transpose of the \<open>m\<close> by \<open>n\<close> column-major matrix at \<open>A\<close>, that is, the cell
  \<open>B + r * n + c\<close> holds the cell \<open>A + c * m + r\<close>, and no other cell changes.
\<close>

definition transposed :: "memory \<Rightarrow> ptr \<Rightarrow> ptr \<Rightarrow> nat \<Rightarrow> nat \<Rightarrow> memory" where
  "transposed m0 A B m n =
     (\<lambda>a. if B \<le> a \<and> a < B + m * n then m0 (A + (((a - B) mod n) * m + (a - B) div n))
          else m0 a)"

text \<open>
  The invariant of a running transpose kernel that started in the memory \<open>m0\<close>:
  every cell holds what it held at the start or what the transpose puts there.
\<close>

definition good :: "memory \<Rightarrow> ptr \<Rightarrow> ptr \<Rightarrow> nat \<Rightarrow> nat \<Rightarrow> memory \<Rightarrow> bool" where
  "good m0 A B m n m1 = (\<forall>a. m1 a = m0 a \<or> m1 a = transposed m0 A B m n a)"

subsection \<open>Multiplication through cuBLAS\<close>

text \<open>
  \<^verbatim>\<open>cublasSgemm_v2\<close> and \<^verbatim>\<open>cublasSdgmm\<close> belong to the vendor library; they are
  modelled from their documented contract on column-major matrices with leading
  dimensions. \<open>gemm\<close> computes \<open>C = alpha * op(A) * op(B) + beta * C\<close>, with \<open>op(A)\<close> of
  \<open>m\<close> by \<open>k\<close>, \<open>op(B)\<close> of \<open>k\<close> by \<open>n\<close> and \<open>C\<close> of \<open>m\<close> by \<open>n\<close> entries, and does not
  read \<open>C\<close> when \<open>beta\<close> is zero; \<open>dgmm\<close> on the left side computes
  \<open>C = diag(x) * A\<close>. Both refuse negative sizes and leading dimensions smaller than the
  rows stored (\<open>None\<close> is a status other than success). The library does not fix the
  order in which a dot product is summed; the model sums from the first index on.
\<close>

definition dot :: "memory \<Rightarrow> bool \<Rightarrow> bool \<Rightarrow> ptr \<Rightarrow> nat \<Rightarrow> ptr \<Rightarrow> nat \<Rightarrow> nat \<Rightarrow> nat \<Rightarrow> nat \<Rightarrow> ieee" where
  "dot m transa transb A lda B ldb k i j =
     foldl (\<lambda>acc l. fadd binary32 acc
         (fmul binary32 (m (if transa then A + i * lda + l else A + l * lda + i))
                        (m (if transb then B + l * ldb + j else B + j * ldb + l))))
       (Finite False 0) [0..<k]"

definition is_zero :: "ieee \<Rightarrow> bool" where
  "is_zero x = (case x of Finite s m \<Rightarrow> m = 0 | _ \<Rightarrow> False)"

definition cublasSgemm_v2 ::
    "bool \<Rightarrow> bool \<Rightarrow> int \<Rightarrow> int \<Rightarrow> int \<Rightarrow> ieee \<Rightarrow> ptr \<Rightarrow> int \<Rightarrow> ptr \<Rightarrow> int \<Rightarrow> ieee \<Rightarrow> ptr \<Rightarrow> int \<Rightarrow>
     memory \<Rightarrow> memory option" where
  "cublasSgemm_v2 transa transb m n k alpha A lda B ldb beta C ldc mem0 =
     (if m < 0 \<or> n < 0 \<or> k < 0 \<or> lda < max 1 (if transa then k else m) \<or>
         ldb < max 1 (if transb then n else k) \<or> ldc < max 1 m
      then None
      else Some (\<lambda>x.
        let i = (x - C) mod nat ldc; j = (x - C) div nat ldc
        in if C \<le> x \<and> int i < m \<and> int j < n
           then let p = fmul binary32 alpha
                      (dot mem0 transa transb A (nat lda) B (nat ldb) (nat k) i j)
                in if is_zero beta then p else fadd binary32 p (fmul binary32 beta (mem0 x))
           else mem0 x))"

definition cublasSdgmm_left ::
    "int \<Rightarrow> int \<Rightarrow> ptr \<Rightarrow> int \<Rightarrow> ptr \<Rightarrow> int \<Rightarrow> ptr \<Rightarrow> int \<Rightarrow> memory \<Rightarrow> memory option" where
  "cublasSdgmm_left m n A lda x incx C ldc mem0 =
     (if m < 0 \<or> n < 0 \<or> lda < max 1 m \<or> ldc < max 1 m then None
      else Some (\<lambda>a.
        let i = (a - C) mod nat ldc; j = (a - C) div nat ldc
        in if C \<le> a \<and> int i < m \<and> int j < n
           then fmul binary32 (mem0 (nat (int x + int i * incx))) (mem0 (A + j * nat lda + i))
           else mem0 a))"

text \<open>
  \<^verbatim>\<open>cudaMemset(C, 0, n * sizeof(float))\<close> for an \<^verbatim>\<open>int\<close> \<open>n\<close>: the cells become
  \<open>+0.0\<close>. A negative \<open>n\<close> is, as a \<^verbatim>\<open>size_t\<close>, larger than any device, and the call
  fails without writing.
\<close>

definition cudaMemset0 :: "memory \<Rightarrow> ptr \<Rightarrow> int \<Rightarrow> memory option" where
  "cudaMemset0 m C n =
     (if n < 0 then None else Some (\<lambda>x. if in_buf C n x then Finite False 0 else m x))"

text \<open>
  \<^verbatim>\<open>matrix::mult\<close> and \<^verbatim>\<open>matrix::multD\<close>. The creation of the cuBLAS handle is not
  modelled; each \<^verbatim>\<open>assert\<close> on a status is the hard stop. \<^verbatim>\<open>mult\<close> does not look at
  the result of \<^verbatim>\<open>cudaMemset\<close>, \<^verbatim>\<open>multD\<close> passes it to \<^verbatim>\<open>gpuErrchk\<close>. The sizes
  \<^verbatim>\<open>M * K\<close> and \<^verbatim>\<open>M * N\<close> are products in \<^verbatim>\<open>int\<close>.
\<close>

definition matrix_mult ::
    "ptr \<Rightarrow> ptr \<Rightarrow> ptr \<Rightarrow> ieee \<Rightarrow> ieee \<Rightarrow> bool \<Rightarrow> bool \<Rightarrow> int \<Rightarrow> int \<Rightarrow> int \<Rightarrow> 'a gpu_scheme \<Rightarrow>
     error + 'a gpu_scheme" where
  "matrix_mult A B C alpha beta TA TB M N K g =
     (let m1 = (case cudaMemset0 (mem g) C (int32 (M * K)) of
                  None \<Rightarrow> mem g
                | Some m \<Rightarrow> m)
      in case cublasSgemm_v2 TA TB M K N alpha A M B N beta C M m1 of
           None \<Rightarrow> Inl Abort
         | Some m2 \<Rightarrow> Inr (g\<lparr>mem := m2\<rparr>))"

definition matrix_multD :: "ptr \<Rightarrow> ptr \<Rightarrow> ptr \<Rightarrow> int \<Rightarrow> int \<Rightarrow> 'a gpu_scheme \<Rightarrow> error + 'a gpu_scheme" where
  "matrix_multD A B C M N g =
     (case cudaMemset0 (mem g) C (int32 (M * N)) of
        None \<Rightarrow> Inl Abort
      | Some m1 \<Rightarrow>
          (case cublasSdgmm_left M N B M A 1 C M m1 of
             None \<Rightarrow> Inl Abort
           | Some m2 \<Rightarrow> Inr (g\<lparr>mem := m2\<rparr>)))"

text \<open>
  The values of a format are the fixed points of its rounding: \<open>is_float binary32\<close> holds
  of the values a \<^verbatim>\<open>float\<close> can take.
\<close>

definition is_float :: "format \<Rightarrow> ieee \<Rightarrow> bool" where
  "is_float f x = (case x of Finite s m \<Rightarrow> 0 \<le> m \<and> round_mag f m = Some m | _ \<Rightarrow> True)"

text \<open>The unit in the last place of a format at a magnitude.\<close>

definition ulp :: "format \<Rightarrow> rat \<Rightarrow> rat" where
  "ulp f r = 2 powi (max (ilog2 r) (emin f) - int (prec f) + 1)"

text \<open>
  The value of \<^verbatim>\<open>(float)(1./(double)dB)\<close>: the reciprocal of a step, computed the way
  \<^verbatim>\<open>jacobian_v2\<close> computes its scale factor.
\<close>

definition reciprocal :: "ieee \<Rightarrow> ieee" where
  "reciprocal dB = cvt binary32 (fdiv binary64 (literal 1) (cvt binary64 dB))"

text \<open>
  A host state for the worked examples: the caller's buffer \<open>J\<close> is the block of 10
  cells at cell 1, the parameters are \<open>a = 2\<close> and \<open>b = 3\<close>.
\<close>

definition host0 :: host where
  "host0 = \<lparr>mem = (\<lambda>x. Finite False 0), live = [(1, 10)], brk = 10, cap = 64,
     param = [Finite False 2, Finite False 3], evals = []\<rparr>"

text \<open>The same state with the slope parameter \<open>a = 0.0\<close>.\<close>

definition host_zero :: host where
  "host_zero = host0\<lparr>param := [Finite False 0, Finite False 3]\<rparr>"

text \<open>
  The same state with the parameters \<open>a = 0.0\<close> and \<open>b = -2^-100\<close>, for both of which
  the guard of \<^verbatim>\<open>jacobian_v2\<close> replaces the step, and with \<open>a = 2^-90\<close>, \<open>b = 3\<close>.
\<close>

definition host_tiny :: host where
  "host_tiny = host0\<lparr>param := [Finite False 0, Finite True (1 / 2 ^ 100)]\<rparr>"

definition host_small :: host where
  "host_small = host0\<lparr>param := [Finite False (1 / 2 ^ 90), Finite False 3]\<rparr>"

text \<open>
  Two devices for the worked examples of the kernels and matrix primitives: one block of
  four cells at cell 1 is live, and every cell holds \<open>0.0\<close>, respectively \<open>1.0\<close>.
\<close>

definition dev0 :: gpu where
  "dev0 = \<lparr>mem = (\<lambda>x. Finite False 0), live = [(1, 4)], brk = 4, cap = 64\<rparr>"

definition dev1 :: gpu where
  "dev1 = \<lparr>mem = (\<lambda>x. Finite False 1), live = [(1, 4)], brk = 4, cap = 64\<rparr>"

text \<open>
  A device with three live blocks of six cells at the cells 1, 7 and 13, where the cell
  \<open>x\<close> holds the number \<open>x\<close>.
\<close>

definition dev_mat :: gpu where
  "dev_mat = \<lparr>mem = (\<lambda>x. Finite False (of_nat x)), live = [(1, 6), (7, 6), (13, 6)],
     brk = 18, cap = 64\<rparr>"

text \<open>
  A device with three live blocks of \<open>65537 * 65536 = 2^32 + 65536\<close> cells at the
  cells 1, \<open>1 + 65537 * 65536\<close> and \<open>1 + 2 * 65537 * 65536\<close>. The cell \<open>1 + 2^32\<close>,
  which is the cell of index \<open>2^32\<close> of the first block, holds \<open>1.0\<close>; every other
  cell holds \<open>0.0\<close>.
\<close>

definition dev_big :: gpu where
  "dev_big = \<lparr>mem = (\<lambda>x. if x = 4294967297 then Finite False 1 else Finite False 0),
     live = [(1, 4295032832), (4295032833, 4295032832), (8590065665, 4295032832)],
     brk = 12885098496, cap = 12885098496\<rparr>"

section \<open>Properties of the Jacobian estimators\<close>

lemma nat_int_mult [simp]: "nat (int a * int b) = a * b"
  by (simp add: nat_mult_distrib)

lemma in_buf_int [simp]: "in_buf p (int n) x \<longleftrightarrow> p \<le> x \<and> x < p + n"
  by (auto simp: in_buf_def)

lemma column_le: "i < k \<Longrightarrow> i * n + n \<le> k * (n::nat)"
  using mult_le_mono1 [of "Suc i" k n] by simp

text \<open>Within the range of \<^verbatim>\<open>int\<close> the arithmetic is exact.\<close>

lemma int32_id: "- (2 ^ 31) \<le> x \<Longrightarrow> x < 2 ^ 31 \<Longrightarrow> int32 x = x"
  by (simp add: int32_def signed_of_int signed_take_bit_int_eq_self)

lemma int32_nat: "n < 2 ^ 31 \<Longrightarrow> int32 (int n) = int n"
proof -
  assume "n < 2 ^ 31"
  then have "int n < int (2 ^ 31)" by (simp only: of_nat_less_iff)
  then show ?thesis by (intro int32_id) simp_all
qed

lemma int32_mult: "a * b < 2 ^ 31 \<Longrightarrow> int32 (int a * int b) = int (a * b)"
  using int32_nat [of "a * b"] by simp

lemma column_ptr: "i * n < 2 ^ 31 \<Longrightarrow> nat (int J + int32 (int i * int n)) = J + i * n"
  by (simp add: int32_mult nat_add_distrib)




lemma call_model_fields [simp]:
  "param (call_model f A N s) = param s"
  "live (call_model f A N s) = live s"
  "brk (call_model f A N s) = brk s"
  "cap (call_model f A N s) = cap s"
  "evals (call_model f A N s) = evals s @ [param s]"
  by (simp_all add: call_model_def)

lemma jacobian_iter_fields [simp]:
  "param (jacobian_iter f J prev next N i s) = param s"
  "live (jacobian_iter f J prev next N i s) = live s"
  "brk (jacobian_iter f J prev next N i s) = brk s"
  "cap (jacobian_iter f J prev next N i s) = cap s"
  "evals (jacobian_iter f J prev next N i s) =
     evals s @ [(param s)[nat i := fadd binary32 (param s ! nat i) eps17]]"
  by (simp_all add: jacobian_iter_def Let_def)

lemma vector_sub_out:
  "\<not> (out \<le> x \<and> x < out + n) \<Longrightarrow> vector_sub m a b out (int n) x = m x"
  by (auto simp: vector_sub_def)

lemma vector_sub_in:
  "t < n \<Longrightarrow> vector_sub m a b out (int n) (out + t) = fsub binary32 (m (a + t)) (m (b + t))"
  by (simp add: vector_sub_def)

lemma vector_mult_out:
  "\<not> (out \<le> x \<and> x < out + n) \<Longrightarrow> vector_mult m a c out (int n) x = m x"
  by (auto simp: vector_mult_def)

lemma vector_mult_in:
  "t < n \<Longrightarrow> vector_mult m a c out (int n) (out + t) = fmul binary32 (m (a + t)) c"
  by (simp add: vector_mult_def)

lemma call_model_out:
  "\<not> (A \<le> x \<and> x < A + n) \<Longrightarrow> mem (call_model f A (int n) s) x = mem s x"
  by (auto simp: call_model_def)

lemma call_model_in:
  "t < n \<Longrightarrow> mem (call_model f A (int n) s) (A + t) = f (param s) (int n) t"
  by (simp add: call_model_def)



lemma jacobian_loop_done: "\<not> i < K \<Longrightarrow> jacobian_loop f J prev next N K i s = s"
  by (subst jacobian_loop.simps) simp

lemma jacobian_loop_step:
  "i < k \<Longrightarrow> jacobian_loop f J prev next N (int k) (int i) s =
     jacobian_loop f J prev next N (int k) (int (Suc i)) (jacobian_iter f J prev next N (int i) s)"
  by (subst jacobian_loop.simps) (simp add: add.commute)

lemma jacobian_loop_fields:
  "param (jacobian_loop f J prev next N (int k) (int i) s) = param s \<and>
   live (jacobian_loop f J prev next N (int k) (int i) s) = live s \<and>
   brk (jacobian_loop f J prev next N (int k) (int i) s) = brk s \<and>
   cap (jacobian_loop f J prev next N (int k) (int i) s) = cap s \<and>
   evals (jacobian_loop f J prev next N (int k) (int i) s) =
     evals s @ map (\<lambda>j. (param s)[j := fadd binary32 (param s ! j) eps17]) [i..<k]"
proof (induction "k - i" arbitrary: i s)
  case 0
  then show ?case by (simp add: jacobian_loop_done)
next
  case (Suc d)
  then have lt: "i < k" and d: "d = k - Suc i" by simp_all
  show ?case
    using Suc.hyps(1) [OF d, of "jacobian_iter f J prev next N (int i) s"] lt
    by (simp add: jacobian_loop_step upt_conv_Cons)
qed




lemma cudaMalloc_ok:
  assumes "Suc (brk s) + n \<le> cap s"
  shows "cudaMalloc s (int n) =
    Some (Suc (brk s), s\<lparr>live := (Suc (brk s), n) # live s, brk := Suc (brk s) + n\<rparr>)"
  using assms by (simp add: cudaMalloc_def)

lemma cudaFree_fields [simp]:
  "mem (cudaFree s p) = mem s"
  "brk (cudaFree s p) = brk s"
  "cap (cudaFree s p) = cap s"
  "param (cudaFree s p) = param s"
  "evals (cudaFree s p) = evals s"
  "live (cudaFree s p) = filter (\<lambda>b. fst b \<noteq> p) (live s)"
  by (simp_all add: cudaFree_def)

text \<open>The state in which \<^verbatim>\<open>jacobian\<close> returns, when both allocations succeed.\<close>

lemma jacobian_returns:
  assumes "Suc (brk s) + n + Suc n \<le> cap s"
  shows "jacobian J f (int n) (int k) s =
    Inr (cudaFree (cudaFree
      ((jacobian_loop f J (Suc (brk s)) (Suc (Suc (brk s) + n)) (int n) (int k) (int 0)
          (call_model f (Suc (brk s)) (int n)
            (s\<lparr>live := (Suc (Suc (brk s) + n), n) # (Suc (brk s), n) # live s,
               brk := Suc (Suc (brk s) + n) + n\<rparr>)))
        \<lparr>mem := vector_mult
          (mem (jacobian_loop f J (Suc (brk s)) (Suc (Suc (brk s) + n)) (int n) (int k) (int 0)
            (call_model f (Suc (brk s)) (int n)
              (s\<lparr>live := (Suc (Suc (brk s) + n), n) # (Suc (brk s), n) # live s,
                 brk := Suc (Suc (brk s) + n) + n\<rparr>))))
          J inv_eps17 J (int32 (int n * int k))\<rparr>)
      (Suc (brk s))) (Suc (Suc (brk s) + n)))"
  using assms by (simp add: jacobian_def cudaMalloc_def Let_def)



lemma filter_live_fresh:
  assumes "\<forall>b\<in>set bs. fst b \<le> (c::nat)" and "c < p"
  shows "filter (\<lambda>b. fst b \<noteq> p) bs = bs"
  using assms by (induction bs) auto

lemma jacobian_frees:
  assumes room: "Suc (brk s) + n + Suc n \<le> cap s"
    and inv: "\<forall>b\<in>set (live s). fst b \<le> brk s"
  shows "\<exists>s'. jacobian J f (int n) (int k) s = Inr s' \<and> live s' = live s"
proof -
  have "filter (\<lambda>b. fst b \<noteq> Suc (Suc (brk s) + n))
          (filter (\<lambda>b. fst b \<noteq> Suc (brk s)) (live s)) = live s"
    using inv by (simp add: filter_live_fresh [where c = "brk s"])
  then show ?thesis
    using jacobian_loop_fields [of f J "Suc (brk s)" "Suc (Suc (brk s) + n)" "int n" k 0]
    by (simp add: jacobian_returns [OF room])
qed


lemma jacobian_v2_iter_fields [simp]:
  "param (jacobian_v2_iter f J prev next N i s) = param s"
  "live (jacobian_v2_iter f J prev next N i s) = live s"
  "brk (jacobian_v2_iter f J prev next N i s) = brk s"
  "cap (jacobian_v2_iter f J prev next N i s) = cap s"
  "evals (jacobian_v2_iter f J prev next N i s) =
     evals s @ [(param s)[nat i := fadd binary32 (param s ! nat i) (step_v2 (param s ! nat i))]]"
  by (simp_all add: jacobian_v2_iter_def Let_def)

lemma jacobian_v2_iter_mem_other:
  assumes "\<not> (next \<le> x \<and> x < next + n)" and "\<not> (J + i * n \<le> x \<and> x < J + i * n + n)"
    and "i * n < 2 ^ 31"
  shows "mem (jacobian_v2_iter f J prev next (int n) (int i) s) x = mem s x"
  using assms
  by (simp add: jacobian_v2_iter_def Let_def column_ptr vector_sub_out vector_mult_out
      call_model_out)

lemma jacobian_v2_iter_mem_column:
  assumes "J + i * n + n \<le> prev" and "prev + n \<le> next" and "t < n" and "i * n < 2 ^ 31"
  shows "mem (jacobian_v2_iter f J prev next (int n) (int i) s) (J + i * n + t) =
     fmul binary32
       (fsub binary32
         (f ((param s)[i := fadd binary32 (param s ! i) (step_v2 (param s ! i))]) (int n) t)
         (mem s (prev + t)))
       (scale_v2 (param s ! i))"
proof -
  have "\<not> (next \<le> prev + t \<and> prev + t < next + n)" using assms by auto
  then show ?thesis
    using assms
    by (simp add: jacobian_v2_iter_def Let_def column_ptr vector_sub_in vector_mult_in
        call_model_in call_model_out)
qed

lemma jacobian_v2_loop_done: "\<not> i < K \<Longrightarrow> jacobian_v2_loop f J prev next N K i s = s"
  by (subst jacobian_v2_loop.simps) simp

lemma jacobian_v2_loop_step:
  "i < k \<Longrightarrow> jacobian_v2_loop f J prev next N (int k) (int i) s =
     jacobian_v2_loop f J prev next N (int k) (int (Suc i))
       (jacobian_v2_iter f J prev next N (int i) s)"
  by (subst jacobian_v2_loop.simps) (simp add: add.commute)

lemma jacobian_v2_loop_fields:
  "param (jacobian_v2_loop f J prev next N (int k) (int i) s) = param s \<and>
   live (jacobian_v2_loop f J prev next N (int k) (int i) s) = live s \<and>
   brk (jacobian_v2_loop f J prev next N (int k) (int i) s) = brk s \<and>
   cap (jacobian_v2_loop f J prev next N (int k) (int i) s) = cap s \<and>
   evals (jacobian_v2_loop f J prev next N (int k) (int i) s) =
     evals s @
     map (\<lambda>j. (param s)[j := fadd binary32 (param s ! j) (step_v2 (param s ! j))]) [i..<k]"
proof (induction "k - i" arbitrary: i s)
  case 0
  then show ?case by (simp add: jacobian_v2_loop_done)
next
  case (Suc d)
  then have lt: "i < k" and d: "d = k - Suc i" by simp_all
  show ?case
    using Suc.hyps(1) [OF d, of "jacobian_v2_iter f J prev next N (int i) s"] lt
    by (simp add: jacobian_v2_loop_step upt_conv_Cons)
qed

lemma jacobian_v2_loop_frame:
  assumes "\<not> (next \<le> x \<and> x < next + n)" and "\<not> (J + i * n \<le> x \<and> x < J + k * n)"
    and "k * n < 2 ^ 31"
  shows "mem (jacobian_v2_loop f J prev next (int n) (int k) (int i) s) x = mem s x"
  using assms
proof (induction "k - i" arbitrary: i s)
  case 0
  then show ?case by (simp add: jacobian_v2_loop_done)
next
  case (Suc d)
  then have lt: "i < k" and d: "d = k - Suc i" by simp_all
  have col: "i * n + n \<le> k * n" using lt by (rule column_le)
  have "mem (jacobian_v2_loop f J prev next (int n) (int k) (int (Suc i))
          (jacobian_v2_iter f J prev next (int n) (int i) s)) x =
        mem (jacobian_v2_iter f J prev next (int n) (int i) s) x"
    using Suc.prems by (intro Suc.hyps(1) [OF d]) auto
  also have "\<dots> = mem s x"
    using Suc.prems col by (intro jacobian_v2_iter_mem_other) auto
  finally show ?case by (simp add: jacobian_v2_loop_step lt)
qed

lemma jacobian_v2_loop_column:
  assumes "J + k * n \<le> prev" and "prev + n \<le> next" and "i \<le> j" and "j < k" and "t < n"
    and "k * n < 2 ^ 31"
  shows "mem (jacobian_v2_loop f J prev next (int n) (int k) (int i) s) (J + j * n + t) =
     fmul binary32
       (fsub binary32
         (f ((param s)[j := fadd binary32 (param s ! j) (step_v2 (param s ! j))]) (int n) t)
         (mem s (prev + t)))
       (scale_v2 (param s ! j))"
  using assms
proof (induction "k - i" arbitrary: i s)
  case 0
  then show ?case by simp
next
  case (Suc d)
  then have lt: "i < k" and d: "d = k - Suc i" by simp_all
  let ?s = "jacobian_v2_iter f J prev next (int n) (int i) s"
  have colj: "j * n + n \<le> k * n" using \<open>j < k\<close> by (rule column_le)
  have coli: "i * n + n \<le> k * n" using lt by (rule column_le)
  have prev_same: "mem ?s (prev + t) = mem s (prev + t)"
    using Suc.prems coli by (intro jacobian_v2_iter_mem_other) auto
  show ?case
  proof (cases "j = i")
    case True
    have "mem (jacobian_v2_loop f J prev next (int n) (int k) (int (Suc i)) ?s) (J + j * n + t) =
          mem ?s (J + j * n + t)"
      using Suc.prems colj True by (intro jacobian_v2_loop_frame) auto
    also have "\<dots> = fmul binary32
       (fsub binary32
         (f ((param s)[j := fadd binary32 (param s ! j) (step_v2 (param s ! j))]) (int n) t)
         (mem s (prev + t)))
       (scale_v2 (param s ! j))"
      using Suc.prems colj True by (simp add: jacobian_v2_iter_mem_column)
    finally show ?thesis by (simp add: jacobian_v2_loop_step lt)
  next
    case False
    then have "Suc i \<le> j" using Suc.prems by simp
    from Suc.hyps(1) [OF d Suc.prems(1,2) this Suc.prems(4,5,6), of ?s] prev_same
    show ?thesis by (simp add: jacobian_v2_loop_step lt)
  qed
qed

lemma jacobian_v2_returns:
  assumes "Suc (brk s) + n + Suc n \<le> cap s"
  shows "jacobian_v2 J f (int n) (int k) s =
    Inr (cudaFree (cudaFree
      (jacobian_v2_loop f J (Suc (brk s)) (Suc (Suc (brk s) + n)) (int n) (int k) (int 0)
          (call_model f (Suc (brk s)) (int n)
            (s\<lparr>live := (Suc (Suc (brk s) + n), n) # (Suc (brk s), n) # live s,
               brk := Suc (Suc (brk s) + n) + n\<rparr>)))
      (Suc (brk s))) (Suc (Suc (brk s) + n)))"
  using assms by (simp add: jacobian_v2_def cudaMalloc_def Let_def)

lemma jacobian_v2_column:
  assumes room: "Suc (brk s) + n + Suc n \<le> cap s"
    and J: "J + n * k \<le> Suc (brk s)" and i: "i < k" and t: "t < n"
    and nk: "n * k < 2 ^ 31"
  shows "\<exists>s'. jacobian_v2 J f (int n) (int k) s = Inr s' \<and>
     mem s' (J + i * n + t) =
       fmul binary32
         (fsub binary32
           (f ((param s)[i := fadd binary32 (param s ! i) (step_v2 (param s ! i))]) (int n) t)
           (f (param s) (int n) t))
         (scale_v2 (param s ! i))"
proof -
  let ?prev = "Suc (brk s)"
  let ?next = "Suc (Suc (brk s) + n)"
  let ?s2 = "s\<lparr>live := (?next, n) # (?prev, n) # live s, brk := ?next + n\<rparr>"
  let ?s3 = "call_model f ?prev (int n) ?s2"
  let ?s4 = "jacobian_v2_loop f J ?prev ?next (int n) (int k) (int 0) ?s3"
  have J': "J + k * n \<le> ?prev" using J by (simp add: mult.commute)
  have kn: "k * n < 2 ^ 31" using nk by (simp add: mult.commute)
  have m4: "mem ?s4 (J + i * n + t) =
      fmul binary32
        (fsub binary32
          (f ((param ?s3)[i := fadd binary32 (param ?s3 ! i) (step_v2 (param ?s3 ! i))]) (int n) t)
          (mem ?s3 (?prev + t)))
        (scale_v2 (param ?s3 ! i))"
    using J' i t kn by (intro jacobian_v2_loop_column) auto
  have m3: "mem ?s3 (?prev + t) = f (param s) (int n) t"
    using call_model_in [OF t, of f ?prev ?s2] by simp
  show ?thesis
    using m3 m4 by (simp add: jacobian_v2_returns [OF room])
qed

text \<open>The state in which \<^verbatim>\<open>jacobian_v2\<close> returns: the calls made and the columns.\<close>

lemma jacobian_v2_result:
  assumes room: "Suc (brk s) + n + Suc n \<le> cap s"
    and J: "J + n * k \<le> Suc (brk s)" and nk: "n * k < 2 ^ 31"
  shows "\<exists>s'. jacobian_v2 J f (int n) (int k) s = Inr s' \<and>
     evals s' = evals s @ param s #
       map (\<lambda>i. (param s)[i := fadd binary32 (param s ! i) (step_v2 (param s ! i))]) [0..<k] \<and>
     (\<forall>i<k. \<forall>t<n. mem s' (J + i * n + t) =
       fmul binary32
         (fsub binary32
           (f ((param s)[i := fadd binary32 (param s ! i) (step_v2 (param s ! i))]) (int n) t)
           (f (param s) (int n) t))
         (scale_v2 (param s ! i)))"
proof -
  obtain s' where s': "jacobian_v2 J f (int n) (int k) s = Inr s'"
    using jacobian_v2_returns [OF room] by blast
  have ev: "evals s' = evals s @ param s #
       map (\<lambda>i. (param s)[i := fadd binary32 (param s ! i) (step_v2 (param s ! i))]) [0..<k]"
    using jacobian_v2_loop_fields [of f J "Suc (brk s)" "Suc (Suc (brk s) + n)" "int n" k 0] s'
    by (auto simp: jacobian_v2_returns [OF room])
  have "mem s' (J + i * n + t) =
       fmul binary32
         (fsub binary32
           (f ((param s)[i := fadd binary32 (param s ! i) (step_v2 (param s ! i))]) (int n) t)
           (f (param s) (int n) t))
         (scale_v2 (param s ! i))" if "i < k" "t < n" for i t
    using jacobian_v2_column [OF room J that nk, of f] s' by auto
  then show ?thesis using s' ev by simp
qed

lemma jacobian_v2_frees:
  assumes room: "Suc (brk s) + n + Suc n \<le> cap s"
    and inv: "\<forall>b\<in>set (live s). fst b \<le> brk s"
  shows "\<exists>s'. jacobian_v2 J f (int n) (int k) s = Inr s' \<and> live s' = live s"
proof -
  have "filter (\<lambda>b. fst b \<noteq> Suc (Suc (brk s) + n))
          (filter (\<lambda>b. fst b \<noteq> Suc (brk s)) (live s)) = live s"
    using inv by (simp add: filter_live_fresh [where c = "brk s"])
  then show ?thesis
    using jacobian_v2_loop_fields [of f J "Suc (brk s)" "Suc (Suc (brk s) + n)" "int n" k 0]
    by (simp add: jacobian_v2_returns [OF room])
qed

lemma cudaMalloc_param: "cudaMalloc s n = Some (p, s') \<Longrightarrow> param s' = param s"
  by (auto simp: cudaMalloc_def split: if_splits)

lemma jacobian_loop_param: "param (jacobian_loop f J prev next N K i s) = param s"
proof (induction f J prev "next" N K i s rule: jacobian_loop.induct)
  case (1 f J prev "next" N K i s)
  show ?case
  proof (cases "i < K")
    case True
    then show ?thesis
      using "1.IH" [OF True] by (subst jacobian_loop.simps) simp
  next
    case False
    then show ?thesis by (simp add: jacobian_loop_done)
  qed
qed

lemma jacobian_v2_loop_param: "param (jacobian_v2_loop f J prev next N K i s) = param s"
proof (induction f J prev "next" N K i s rule: jacobian_v2_loop.induct)
  case (1 f J prev "next" N K i s)
  show ?case
  proof (cases "i < K")
    case True
    then show ?thesis
      using "1.IH" [OF True] by (subst jacobian_v2_loop.simps) simp
  next
    case False
    then show ?thesis by (simp add: jacobian_v2_loop_done)
  qed
qed

text \<open>
  Claim C2. Whenever \<^verbatim>\<open>jacobian\<close> or \<^verbatim>\<open>jacobian_v2\<close> returns, the parameter vector
  is the one it was given: every entry is saved before it is perturbed and the saved
  value is stored back.
\<close>

theorem jacobian_restores_param:
  "(jacobian J f N K s = Inr s' \<longrightarrow> param s' = param s) \<and>
   (jacobian_v2 J f N K s = Inr s'' \<longrightarrow> param s'' = param s)"
  by (auto simp: jacobian_def jacobian_v2_def Let_def jacobian_loop_param jacobian_v2_loop_param
      dest!: cudaMalloc_param split: option.splits prod.splits if_splits)

theorem jacobian_restores_param_witness:
  "(\<exists>s'. jacobian 1 flinear 5 2 host0 = Inr s' \<and> param s' = param host0) \<and>
   (\<exists>s''. jacobian_v2 1 flinear 5 2 host0 = Inr s'' \<and> param s'' = param host0)"
proof -
  have room: "Suc (brk host0) + 5 + Suc 5 \<le> cap host0" by (simp add: host0_def)
  obtain s' where s': "jacobian 1 flinear 5 2 host0 = Inr s'"
    using jacobian_returns [OF room, of 1 flinear 2] by auto
  obtain s'' where s'': "jacobian_v2 1 flinear 5 2 host0 = Inr s''"
    using jacobian_v2_returns [OF room, of 1 flinear 2] by auto
  show ?thesis
    using jacobian_restores_param [of 1 flinear 5 2 host0 s' s''] s' s'' by simp
qed


section \<open>Properties of the arithmetic\<close>

lemma pow2_less_iff [simp]: "(2::rat) powi a < 2 powi b \<longleftrightarrow> a < b"
proof
  assume l: "(2::rat) powi a < 2 powi b"
  show "a < b"
  proof (rule ccontr)
    assume "\<not> a < b"
    then have "(2::rat) powi b \<le> 2 powi a" by (intro power_int_increasing) simp_all
    with l show False by simp
  qed
next
  assume "a < b"
  then show "(2::rat) powi a < 2 powi b" by (intro power_int_strict_increasing) simp_all
qed

lemma pow2_le_iff [simp]: "(2::rat) powi a \<le> 2 powi b \<longleftrightarrow> a \<le> b"
  using pow2_less_iff [of b a] by (simp only: not_less [symmetric])

lemma pow2_add: "(2::rat) powi (a + b) = 2 powi a * 2 powi b"
  by (simp add: power_int_add)

lemma pow2_diff: "(2::rat) powi (a - b) = 2 powi a / 2 powi b"
  by (simp add: power_int_diff)

lemma bitlen_bounds_rat:
  assumes "0 < a"
  shows "(2::rat) powi (bitlen a - 1) \<le> of_int a" and "of_int a < (2::rat) powi (bitlen a)"
proof -
  have l: "1 \<le> bitlen a" using assms by (simp add: bitlen_alt_def)
  have "(of_int (2 ^ nat (bitlen a - 1)) :: rat) \<le> of_int a"
    using bitlen_bounds [OF assms] by (simp only: of_int_le_iff)
  then show "(2::rat) powi (bitlen a - 1) \<le> of_int a"
    using l by (simp add: power_int_nonneg_exp)
  have "(of_int a :: rat) < of_int (2 ^ nat (bitlen a))"
    using bitlen_bounds [OF assms] by (simp only: of_int_less_iff)
  then show "of_int a < (2::rat) powi (bitlen a)"
    using l by (simp add: power_int_nonneg_exp)
qed

lemma ilog2_bounds:
  assumes "0 < q"
  shows "2 powi (ilog2 q) \<le> q \<and> q < 2 powi (ilog2 q + 1)"
proof -
  obtain a b where ab: "quotient_of q = (a, b)" by (cases "quotient_of q")
  have b: "0 < b" using ab by (rule quotient_of_denom_pos)
  have q: "q = of_int a / of_int b" using ab by (rule quotient_of_div)
  have a: "0 < a" using assms b q by (simp add: zero_less_divide_iff)
  define d where "d = bitlen a - bitlen b"
  note a1 = bitlen_bounds_rat(1) [OF a] and a2 = bitlen_bounds_rat(2) [OF a]
  note b1 = bitlen_bounds_rat(1) [OF b] and b2 = bitlen_bounds_rat(2) [OF b]
  have bpos: "(0::rat) < of_int b" using b by simp
  have "q * of_int b < (2::rat) powi (d + 1) * of_int b"
  proof -
    have "q * of_int b = of_int a" using q bpos by simp
    also have "\<dots> < 2 powi (bitlen a)" by (rule a2)
    also have "\<dots> = 2 powi (d + 1) * 2 powi (bitlen b - 1)"
      by (simp add: d_def flip: power_int_add)
    also have "\<dots> \<le> 2 powi (d + 1) * of_int b"
      using b1 by (intro mult_left_mono) simp_all
    finally show ?thesis .
  qed
  then have up: "q < 2 powi (d + 1)" using bpos by simp
  have "(2::rat) powi (d - 1) * of_int b < q * of_int b"
  proof -
    have "(2::rat) powi (d - 1) * of_int b < 2 powi (d - 1) * 2 powi (bitlen b)"
      using b2 by (intro mult_strict_left_mono) simp_all
    also have "\<dots> = 2 powi (bitlen a - 1)"
      by (simp add: d_def flip: power_int_add)
    also have "\<dots> \<le> of_int a" by (rule a1)
    also have "\<dots> = q * of_int b" using q bpos by simp
    finally show ?thesis .
  qed
  then have lo: "2 powi (d - 1) < q" using bpos by simp
  have il: "ilog2 q = (if 2 powi d \<le> q then d else d - 1)"
    by (simp add: ilog2_def ab d_def Let_def)
  show ?thesis
    using up lo by (auto simp: il)
qed

lemma ilog2_unique:
  assumes "2 powi e \<le> q" and "q < 2 powi (e + 1)"
  shows "ilog2 q = e"
proof -
  have q: "0 < q" using assms(1) by (rule less_le_trans [rotated]) simp
  note b = ilog2_bounds [OF q]
  have "(2::rat) powi e < 2 powi (ilog2 q + 1)"
    using le_less_trans [OF assms(1) conjunct2 [OF b]] .
  then have 1: "e < ilog2 q + 1" by simp
  have "(2::rat) powi (ilog2 q) < 2 powi (e + 1)"
    using le_less_trans [OF conjunct1 [OF b] assms(2)] .
  then have 2: "ilog2 q < e + 1" by simp
  show ?thesis using 1 2 by simp
qed


lemma rne_of_int [simp]: "rne (of_int k) = k"
  by (simp add: rne_def)

lemma rne_ge:
  assumes "of_int k \<le> q"
  shows "k \<le> rne q"
proof -
  have "k \<le> \<lfloor>q\<rfloor>" using assms by (simp add: le_floor_iff)
  then show ?thesis by (auto simp: rne_def Let_def)
qed

lemma rne_le:
  assumes "q \<le> of_int k"
  shows "rne q \<le> k"
proof (cases "q = of_int k")
  case True
  then show ?thesis by simp
next
  case False
  then have "q < of_int k" using assms by simp
  then have "\<lfloor>q\<rfloor> < k" by (simp add: floor_less_iff)
  then show ?thesis by (auto simp: rne_def Let_def)
qed

lemma round_mag_unfold:
  assumes "m \<noteq> 0"
  shows "round_mag f m =
    (if ilog2 (of_int (rne (m / 2 powi (max (ilog2 m) (emin f) - int (prec f) + 1))) *
          2 powi (max (ilog2 m) (emin f) - int (prec f) + 1)) \<le> emax f
     then Some (of_int (rne (m / 2 powi (max (ilog2 m) (emin f) - int (prec f) + 1))) *
          2 powi (max (ilog2 m) (emin f) - int (prec f) + 1))
     else None)"
  using assms by (simp add: round_mag_def Let_def)

lemma pow2_of_int: "0 \<le> a \<Longrightarrow> (2::rat) powi a = of_int (2 ^ nat a)"
  by (simp add: power_int_nonneg_exp)

lemma round_mag_lower:
  assumes p: "0 < prec f" and e: "emin f \<le> e" and q: "2 powi e \<le> q"
    and r: "round_mag f q = Some r"
  shows "2 powi e \<le> r"
proof -
  have q0: "0 < q" using q by (rule less_le_trans [rotated]) simp
  note b = ilog2_bounds [OF q0]
  have "(2::rat) powi e < 2 powi (ilog2 q + 1)"
    using le_less_trans [OF q conjunct2 [OF b]] .
  then have eq: "e \<le> ilog2 q" by simp
  then have E: "max (ilog2 q) (emin f) = ilog2 q" using e by simp
  define u :: rat where "u = 2 powi (ilog2 q - int (prec f) + 1)"
  have u0: "0 < u" by (simp add: u_def)
  have rr: "r = of_int (rne (q / u)) * u"
    using r q0 by (simp add: round_mag_unfold E u_def split: if_splits)
  have "(2::rat) powi (int (prec f) - 1) = of_int (2 ^ nat (int (prec f) - 1))"
    using p by (intro pow2_of_int) simp
  moreover have "(2::rat) powi (int (prec f) - 1) * u = 2 powi (ilog2 q)"
    by (simp add: u_def flip: pow2_add)
  ultimately have k: "of_int (2 ^ nat (int (prec f) - 1)) * u = 2 powi (ilog2 q)" by simp
  have "of_int (2 ^ nat (int (prec f) - 1)) * u \<le> q" using k b by simp
  then have "of_int (2 ^ nat (int (prec f) - 1)) \<le> q / u" using u0 by (simp add: pos_le_divide_eq)
  then have "2 ^ nat (int (prec f) - 1) \<le> rne (q / u)" by (rule rne_ge)
  then have "(of_int (2 ^ nat (int (prec f) - 1)) :: rat) \<le> of_int (rne (q / u))"
    by (simp only: of_int_le_iff)
  then have "of_int (2 ^ nat (int (prec f) - 1)) * u \<le> of_int (rne (q / u)) * u"
    using u0 by (intro mult_right_mono) simp_all
  then have "2 powi (ilog2 q) \<le> r" using k rr by simp
  moreover have "(2::rat) powi e \<le> 2 powi (ilog2 q)" using eq by simp
  ultimately show ?thesis by (rule order_trans [rotated])
qed

lemma round_mag_upper:
  assumes p: "0 < prec f" and e: "emin f \<le> e" and q0: "0 < q" and q: "q \<le> 2 powi e"
    and r: "round_mag f q = Some r"
  shows "r \<le> 2 powi e"
proof -
  note b = ilog2_bounds [OF q0]
  have "(2::rat) powi (ilog2 q) \<le> 2 powi e"
    using order_trans [OF conjunct1 [OF b] q] .
  then have eq: "ilog2 q \<le> e" by simp
  define E where "E = max (ilog2 q) (emin f)"
  have E: "E \<le> e" using eq e by (simp add: E_def)
  define u :: rat where "u = 2 powi (E - int (prec f) + 1)"
  have u0: "0 < u" by (simp add: u_def)
  have rr: "r = of_int (rne (q / u)) * u"
    using r q0 by (simp add: round_mag_unfold E_def u_def split: if_splits)
  define c where "c = e - E + int (prec f) - 1"
  have c0: "0 \<le> c" using E p by (simp add: c_def)
  have "(2::rat) powi c * u = 2 powi e"
    by (simp add: u_def c_def flip: pow2_add)
  then have k: "of_int (2 ^ nat c) * u = 2 powi e" using pow2_of_int [OF c0] by simp
  have "q \<le> of_int (2 ^ nat c) * u" using k q by simp
  then have "q / u \<le> of_int (2 ^ nat c)" using u0 by (simp add: pos_divide_le_eq)
  then have "rne (q / u) \<le> 2 ^ nat c" by (rule rne_le)
  then have "(of_int (rne (q / u)) :: rat) \<le> of_int (2 ^ nat c)"
    by (simp only: of_int_le_iff)
  then have "of_int (rne (q / u)) * u \<le> of_int (2 ^ nat c) * u"
    using u0 by (intro mult_right_mono) simp_all
  then show ?thesis using k rr by simp
qed

lemma round_mag_nonneg:
  assumes "0 \<le> q" and "round_mag f q = Some r"
  shows "0 \<le> r"
proof (cases "q = 0")
  case True
  then show ?thesis using assms by (simp add: round_mag_def)
next
  case False
  define u :: rat where "u = 2 powi (max (ilog2 q) (emin f) - int (prec f) + 1)"
  have u0: "0 < u" by (simp add: u_def)
  have rr: "r = of_int (rne (q / u)) * u"
    using assms False by (simp add: round_mag_unfold u_def split: if_splits)
  have "of_int 0 \<le> q / u" using assms u0 by simp
  then have "0 \<le> rne (q / u)" by (rule rne_ge)
  then show ?thesis using u0 rr by simp
qed


lemma ulp_pos [simp]: "0 < ulp f r"
  by (simp add: ulp_def)

lemma round_mag_fix_iff:
  assumes "0 < r"
  shows "round_mag f r = Some r \<longleftrightarrow> ilog2 r \<le> emax f \<and> (\<exists>k. r = of_int k * ulp f r)"
proof
  assume "round_mag f r = Some r"
  then have "ilog2 r \<le> emax f" and "r = of_int (rne (r / ulp f r)) * ulp f r"
    using assms by (simp_all add: round_mag_unfold ulp_def split: if_splits)
  then show "ilog2 r \<le> emax f \<and> (\<exists>k. r = of_int k * ulp f r)" by blast
next
  assume "ilog2 r \<le> emax f \<and> (\<exists>k. r = of_int k * ulp f r)"
  then obtain k where e: "ilog2 r \<le> emax f" and k: "r = of_int k * ulp f r" by blast
  define U where "U = ulp f r"
  have "0 < U" unfolding U_def by (rule ulp_pos)
  then have U0: "U \<noteq> 0" by simp
  have kU: "r = of_int k * U" using k by (simp add: U_def)
  have "r / U = of_int k" using U0 by (simp add: kU)
  then have "of_int (rne (r / U)) * U = r" using kU by simp
  then have "of_int (rne (r / ulp f r)) * ulp f r = r" by (simp add: U_def)
  then show "round_mag f r = Some r"
    using assms e by (simp add: round_mag_unfold flip: ulp_def)
qed

lemma round_mag_idem:
  assumes p: "0 < prec f" and q: "0 \<le> q" and r: "round_mag f q = Some r"
  shows "round_mag f r = Some r"
proof (cases "r = 0")
  case True
  then show ?thesis by (simp add: round_mag_def)
next
  case False
  then have q0: "0 < q" using q r by (cases "q = 0") (simp_all add: round_mag_def)
  have r0: "0 < r" using False round_mag_nonneg [OF q r] by simp
  define E where "E = max (ilog2 q) (emin f)"
  define u :: rat where "u = 2 powi (E - int (prec f) + 1)"
  define n where "n = rne (q / u)"
  have u0: "0 < u" by (simp add: u_def)
  have rr: "r = of_int n * u" and ov: "ilog2 r \<le> emax f"
    using r q0 by (simp_all add: round_mag_unfold E_def u_def n_def split: if_splits)
  note b = ilog2_bounds [OF q0]
  have ex: "\<exists>k. r = of_int k * ulp f r"
  proof (cases "emin f \<le> ilog2 q")
    case True
    then have E: "E = ilog2 q" by (simp add: E_def)
    have lo: "(2::rat) powi E \<le> r"
      using round_mag_lower [OF p True _ r] b by (simp add: E)
    have "q \<le> 2 powi (E + 1)" using b by (simp add: E)
    then have hi: "r \<le> 2 powi (E + 1)"
      using True by (intro round_mag_upper [OF p _ q0 _ r]) (simp_all add: E)
    show ?thesis
    proof (cases "r = 2 powi (E + 1)")
      case True
      then have "ilog2 r = E + 1" by (intro ilog2_unique) simp_all
      then have "ulp f r = 2 powi (E + 1 - int (prec f) + 1)"
        using \<open>emin f \<le> ilog2 q\<close> by (simp add: ulp_def E)
      moreover have "(2::rat) powi (int (prec f) - 1) = of_int (2 ^ nat (int (prec f) - 1))"
        using p by (intro pow2_of_int) simp
      moreover have "(2::rat) powi (int (prec f) - 1) * 2 powi (E + 1 - int (prec f) + 1) =
          2 powi (E + 1)"
      proof -
        have "int (prec f) - 1 + (E + 1 - int (prec f) + 1) = E + 1" by simp
        then show ?thesis by (simp only: pow2_add [symmetric])
      qed
      ultimately have "r = of_int (2 ^ nat (int (prec f) - 1)) * ulp f r"
        using True by simp
      then show ?thesis by blast
    next
      case False
      then have "r < 2 powi (E + 1)" using hi by simp
      then have "ilog2 r = E" using lo by (intro ilog2_unique)
      then have "ulp f r = u" using \<open>emin f \<le> ilog2 q\<close> by (simp add: ulp_def u_def E)
      then show ?thesis using rr by auto
    qed
  next
    case False
    then have E: "E = emin f" by (simp add: E_def)
    have "q < 2 powi (emin f)"
    proof -
      have "(2::rat) powi (ilog2 q + 1) \<le> 2 powi (emin f)" using False by simp
      then show ?thesis by (rule less_le_trans [OF conjunct2 [OF b]])
    qed
    then have "r \<le> 2 powi (emin f)"
      by (intro round_mag_upper [OF p _ q0 _ r]) simp_all
    then have "(2::rat) powi (ilog2 r) \<le> 2 powi (emin f)"
      by (rule order_trans [OF conjunct1 [OF ilog2_bounds [OF r0]]])
    then have "ilog2 r \<le> emin f" by simp
    then have "ulp f r = u" by (simp add: ulp_def u_def E)
    then show ?thesis using rr by auto
  qed
  show ?thesis using ov ex by (simp add: round_mag_fix_iff [OF r0])
qed

lemma round_mag_binary64_of_binary32:
  assumes q: "0 \<le> r" and r: "round_mag binary32 r = Some r"
  shows "round_mag binary64 r = Some r"
proof (cases "r = 0")
  case True
  then show ?thesis by (simp add: round_mag_def)
next
  case False
  then have r0: "0 < r" using q by simp
  from r obtain k where e: "ilog2 r \<le> 127" and k: "r = of_int k * ulp binary32 r"
    by (auto simp: round_mag_fix_iff [OF r0] binary32_def)
  define d where "d = max (ilog2 r) (- 126) - 23 - (max (ilog2 r) (- 1022) - 52)"
  have d0: "0 \<le> d" by (simp add: d_def)
  have "ulp binary32 r = 2 powi d * ulp binary64 r"
    by (simp add: ulp_def binary32_def binary64_def d_def flip: pow2_add)
  then have "r = of_int (k * 2 ^ nat d) * ulp binary64 r"
    using k pow2_of_int [OF d0] by simp
  then have "\<exists>k. r = of_int k * ulp binary64 r" by blast
  then show ?thesis using e by (simp add: round_mag_fix_iff [OF r0] binary64_def)
qed

subsection \<open>The constants of the estimators\<close>

lemma eps10_value: "eps10 = Finite False (1 / 2 ^ 10)"
  by code_simp

lemma literal_1: "literal 1 = Finite False 1"
  by code_simp

lemma lit_1e31_value: "lit_1e31 = Finite False (35681192317649 / 2 ^ 148)"
  by code_simp

lemma floor_1e30: "cvt binary32 lit_1e30 = Finite False (332307 / 2 ^ 118)"
  by code_simp

lemma recip_floor_1e30:
  "cvt binary32 (fdiv binary64 (literal 1) (cvt binary64 (Finite False (332307 / 2 ^ 118)))) =
     Finite False (13234890 * 2 ^ 76)"
  by code_simp

subsection \<open>Floats and doubles\<close>

lemma round_to_cases:
  obtains r where "round_mag f m = Some r" "round_to f s m = Finite s r"
  | "round_mag f m = None" "round_to f s m = Infinity s"
  by (cases "round_mag f m") (simp_all add: round_to_def)

lemma prec_pos [simp]: "0 < prec binary32" "0 < prec binary64"
  by (simp_all add: binary32_def binary64_def)

lemma emin_values [simp]: "emin binary32 = - 126" "emin binary64 = - 1022"
  by (simp_all add: binary32_def binary64_def)

text \<open>A \<^verbatim>\<open>float\<close> converts to \<^verbatim>\<open>double\<close> without change.\<close>

lemma cvt_binary64_exact:
  assumes "is_float binary32 x"
  shows "cvt binary64 x = x"
proof (cases x)
  case (Finite s m)
  then have "round_mag binary64 m = Some m"
    using assms by (simp add: is_float_def round_mag_binary64_of_binary32)
  then show ?thesis using Finite by (simp add: round_to_def)
qed simp_all

lemma is_float_round_to:
  assumes "0 \<le> q" and "0 < prec f"
  shows "is_float f (round_to f s q)"
proof (cases "round_mag f q")
  case None
  then show ?thesis by (simp add: round_to_def is_float_def)
next
  case (Some r)
  have "0 \<le> r" using assms(1) Some by (rule round_mag_nonneg)
  moreover have "round_mag f r = Some r" using assms(2,1) Some by (rule round_mag_idem)
  ultimately show ?thesis using Some by (simp add: round_to_def is_float_def)
qed

lemma is_float_fmul:
  assumes "is_float f x" and "is_float f y" and "0 < prec f"
  shows "is_float f (fmul f x y)"
proof (cases x)
  case x: (Finite s m)
  show ?thesis
  proof (cases y)
    case (Finite t n)
    have "0 \<le> m * n" using assms x Finite by (simp add: is_float_def)
    then show ?thesis
      using assms(3) x Finite by (simp add: is_float_round_to)
  qed (simp_all add: x is_float_def)
next
  case x: (Infinity s)
  show ?thesis by (cases y) (simp_all add: x is_float_def)
qed (simp add: is_float_def)

lemma is_float_eps10: "is_float binary32 eps10"
  by code_simp

lemma ilog2_div_1024:
  assumes "0 < m"
  shows "ilog2 (m / 1024) = ilog2 m - 10"
proof (rule ilog2_unique)
  note b = ilog2_bounds [OF assms]
  have e1: "(2::rat) powi (ilog2 m - 10) = 2 powi (ilog2 m) / 1024"
    by (simp add: pow2_diff)
  have e2: "(2::rat) powi (ilog2 m - 10 + 1) = 2 powi (ilog2 m + 1) / 1024"
    using pow2_diff [of "ilog2 m + 1" 10] by simp
  show "2 powi (ilog2 m - 10) \<le> m / 1024"
    unfolding e1 using b by (simp add: divide_right_mono)
  show "m / 1024 < 2 powi (ilog2 m - 10 + 1)"
    unfolding e2 using b by (simp add: divide_strict_right_mono)
qed

text \<open>The product of a \<^verbatim>\<open>float\<close> and \<open>2^-10\<close> is exact in \<^verbatim>\<open>double\<close>.\<close>

lemma round_mag_binary64_div_1024:
  assumes q: "0 \<le> m" and r: "round_mag binary32 m = Some m"
  shows "round_mag binary64 (m / 1024) = Some (m / 1024)"
proof (cases "m = 0")
  case True
  then show ?thesis by (simp add: round_mag_def)
next
  case False
  then have m0: "0 < m" using q by simp
  then have m1: "0 < m / 1024" by simp
  from r obtain k where e: "ilog2 m \<le> 127" and k: "m = of_int k * ulp binary32 m"
    by (auto simp: round_mag_fix_iff [OF m0] binary32_def)
  define U where "U = ulp binary32 m"
  have kU: "m = of_int k * U" using k by (simp add: U_def)
  define d where "d = max (ilog2 m) (- 126) - 33 - (max (ilog2 m - 10) (- 1022) - 52)"
  have d0: "0 \<le> d" by (simp add: d_def)
  have "U / 1024 = 2 powi (max (ilog2 m) (- 126) - 33)"
    using pow2_diff [of "max (ilog2 m) (- 126) - 23" 10]
    by (simp add: U_def ulp_def binary32_def)
  also have "\<dots> = 2 powi d * ulp binary64 (m / 1024)"
  proof -
    have "max (ilog2 m) (- 126) - 33 = d + (max (ilog2 m - 10) (- 1022) - 52)"
      by (simp add: d_def)
    moreover have "ulp binary64 (m / 1024) = 2 powi (max (ilog2 m - 10) (- 1022) - 52)"
    proof -
      have "max (ilog2 m - 10) (- 1022) - int 53 + 1 = max (ilog2 m - 10) (- 1022) - 52"
        by simp
      then show ?thesis
        by (simp only: ulp_def ilog2_div_1024 [OF m0] binary64_def format.simps)
    qed
    ultimately show ?thesis by (simp only: pow2_add)
  qed
  finally have "U / 1024 = of_int (2 ^ nat d) * ulp binary64 (m / 1024)"
    using pow2_of_int [OF d0] by simp
  then have "m / 1024 = of_int (k * 2 ^ nat d) * ulp binary64 (m / 1024)"
    by (simp add: kU)
  then have "\<exists>k. m / 1024 = of_int k * ulp binary64 (m / 1024)" by blast
  moreover have "ilog2 (m / 1024) \<le> emax binary64"
    using e by (simp add: ilog2_div_1024 [OF m0] binary64_def)
  ultimately show ?thesis by (simp add: round_mag_fix_iff [OF m1])
qed

lemma scale_v2_float:
  assumes "is_float binary32 (Finite s m)" and "0 < m"
  shows "scale_v2 (Finite s m) = cvt binary32 (round_to binary64 s (1024 / m))"
proof -
  have c1: "cvt binary64 (Finite s m) = Finite s m"
    using assms(1) by (rule cvt_binary64_exact)
  have c2: "cvt binary64 eps10 = Finite False (1 / 1024)"
    using cvt_binary64_exact [OF is_float_eps10] by (simp add: eps10_value)
  have "round_mag binary64 (m / 1024) = Some (m / 1024)"
    using assms by (intro round_mag_binary64_div_1024) (simp_all add: is_float_def)
  then have c3: "fmul binary64 (Finite s m) (Finite False (1 / 1024)) = Finite s (m / 1024)"
    by (simp add: round_to_def)
  have "fdiv binary64 (Finite False 1) (Finite s (m / 1024)) = round_to binary64 s (1024 / m)"
    using assms(2) by simp
  then show ?thesis
    by (simp only: scale_v2_def c1 c2 c3 literal_1)
qed


subsection \<open>The step and the scale factor of the adaptive estimator\<close>

lemma too_small_float:
  assumes "is_float binary32 (Finite t d)"
  shows "too_small (Finite t d) \<longleftrightarrow> d < 35681192317649 / 2 ^ 148"
proof -
  have c: "cvt binary64 (Finite t d) = Finite t d"
    using assms by (rule cvt_binary64_exact)
  have d: "0 \<le> d" using assms by (simp add: is_float_def)
  show ?thesis
    unfolding too_small_def c using d by (cases t) (simp_all add: lit_1e31_value signed_def)
qed

lemma too_small_other [simp]: "\<not> too_small (Infinity s)" "\<not> too_small NaN"
  by (cases s) (simp_all add: too_small_def lit_1e31_value)

lemma lit_1e31_below: "(35681192317649 / 2 ^ 148 :: rat) < 2 powi (- 102)"
  by simp

lemma is_float_step: "is_float binary32 p \<Longrightarrow> is_float binary32 (fmul binary32 p eps10)"
  using is_float_eps10 by (intro is_float_fmul) simp_all

lemma clamped_small:
  assumes fl: "is_float binary32 (Finite s m)"
    and g: "too_small (fmul binary32 (Finite s m) eps10)"
  shows "m / 1024 < 2 powi (- 102)"
proof (rule ccontr)
  assume "\<not> m / 1024 < 2 powi (- 102)"
  then have big: "2 powi (- 102) \<le> m / 1024" by (simp only: not_less)
  have prod: "fmul binary32 (Finite s m) eps10 = round_to binary32 s (m / 1024)"
    by (simp add: eps10_value)
  show False
  proof (cases "round_mag binary32 (m / 1024)")
    case None
    then have "fmul binary32 (Finite s m) eps10 = Infinity s"
      by (simp only: prod round_to_def option.case)
    then show False using g by simp
  next
    case (Some d)
    have "2 powi (- 102) \<le> d"
      by (rule round_mag_lower [OF _ _ big Some]) simp_all
    moreover have dB: "fmul binary32 (Finite s m) eps10 = Finite s d"
      using Some by (simp only: prod round_to_def option.case)
    then have "d < 35681192317649 / 2 ^ 148"
      using g is_float_step [OF fl] by (simp only: too_small_float)
    ultimately have "(2::rat) powi (- 102) < 35681192317649 / 2 ^ 148"
      by (rule le_less_trans)
    then show False using lit_1e31_below by (simp only: not_less_iff_gr_or_eq)
  qed
qed

lemma scale_v2_clamped:
  assumes fl: "is_float binary32 (Finite s m)" and m: "0 < m"
    and g: "too_small (fmul binary32 (Finite s m) eps10)"
  shows "scale_v2 (Finite s m) = Infinity s \<or>
    (\<exists>y. 2 powi 102 \<le> y \<and> scale_v2 (Finite s m) = Finite s y)"
proof -
  have "m / 1024 < 2 powi (- 102)"
    using fl g by (rule clamped_small)
  then have "m * 2 powi 102 < 1024"
    using pow2_add [of "- 102" 102] by (simp add: field_simps)
  then have "2 powi 102 < 1024 / m"
    using m by (simp add: pos_less_divide_eq mult.commute)
  then have big: "2 powi 102 \<le> 1024 / m" by (rule less_imp_le)
  note sc = scale_v2_float [OF fl m]
  show ?thesis
  proof (cases "round_mag binary64 (1024 / m)")
    case None
    then have "scale_v2 (Finite s m) = Infinity s"
      by (simp only: sc round_to_def option.case cvt.simps)
    then show ?thesis by (rule disjI1)
  next
    case (Some y)
    have y: "2 powi 102 \<le> y"
      by (rule round_mag_lower [OF _ _ big Some]) simp_all
    have sy: "scale_v2 (Finite s m) = round_to binary32 s y"
      using Some by (simp only: sc round_to_def option.case cvt.simps)
    show ?thesis
    proof (cases "round_mag binary32 y")
      case None
      then have "scale_v2 (Finite s m) = Infinity s"
        by (simp only: sy round_to_def option.case)
      then show ?thesis by (rule disjI1)
    next
      case z: (Some z)
      have "2 powi 102 \<le> z"
        by (rule round_mag_lower [OF _ _ y z]) simp_all
      moreover have "scale_v2 (Finite s m) = Finite s z"
        using z by (simp only: sy round_to_def option.case)
      ultimately show ?thesis by blast
    qed
  qed
qed

lemma cvt_binary64_eps10: "cvt binary64 eps10 = Finite False (1 / 1024)"
  using cvt_binary64_exact [OF is_float_eps10] by (simp add: eps10_value)

lemma scale_v2_zero: "scale_v2 (Finite s 0) = Infinity s"
  by (simp add: scale_v2_def literal_1 round_to_def round_mag_def cvt_binary64_eps10)

lemma fmul_infinity: "is_nan_or_inf (fmul f x (Infinity s))"
  by (cases x) (simp_all add: is_nan_or_inf_def)


lemma is_float_zero [simp]: "is_float f (Finite s 0)"
  by (simp add: is_float_def round_mag_def)

lemma step_v2_zero: "step_v2 (Finite s 0) = Finite False (332307 / 2 ^ 118)"
proof -
  have "fmul binary32 (Finite s 0) eps10 = Finite s 0"
    by (simp add: eps10_value round_to_def round_mag_def)
  then show ?thesis
    by (simp add: step_v2_def Let_def too_small_float floor_1e30)
qed

lemma step_v2_nonzero: "step_v2 p \<noteq> Finite t 0"
proof
  assume z: "step_v2 p = Finite t 0"
  then have "fmul binary32 p eps10 = Finite t 0"
    by (simp add: step_v2_def Let_def floor_1e30 split: if_splits)
  then have "step_v2 p = Finite False (332307 / 2 ^ 118)"
    by (simp add: step_v2_def Let_def too_small_float floor_1e30)
  then show False using z by simp
qed

text \<open>
  The step of \<^verbatim>\<open>jacobian_v2\<close> for a \<^verbatim>\<open>float\<close> parameter: the guard compares the
  product \<open>dB\<close> with the double nearest \<open>1e-31\<close>.
\<close>

lemma step_v2_guard:
  assumes "is_float binary32 p"
  shows "case fmul binary32 p eps10 of
       Finite t d \<Rightarrow>
         step_v2 p = (if d < 35681192317649 / 2 ^ 148 then Finite False (332307 / 2 ^ 118)
                      else Finite t d)
     | Infinity t \<Rightarrow> step_v2 p = Infinity t
     | NaN \<Rightarrow> step_v2 p = NaN"
proof (cases "fmul binary32 p eps10")
  case (Finite t d)
  then have "is_float binary32 (Finite t d)" using is_float_step [OF assms] by simp
  then show ?thesis
    using Finite by (simp add: step_v2_def Let_def too_small_float floor_1e30)
qed (simp_all add: step_v2_def)

lemma upt_2: "[0..<2] = [0, Suc 0]"
  by (simp add: upt_conv_Cons)

text \<open>
  Claim C4, as amended. Let \<^verbatim>\<open>jacobian_v2\<close> be called with \<open>K\<close> \<^verbatim>\<open>float\<close> parameters
  and \<open>N \<ge> 0\<close> samples, \<open>N\<close>, \<open>K\<close> and \<open>N * K\<close> in the range of \<^verbatim>\<open>int\<close>, the buffer
  \<open>J\<close> among the cells handed out before the call and room for the two scratch
  buffers. It returns, and the evaluator is called on the parameter vector as it is and
  then, for \<open>i = 0, ..., K-1\<close>, on the vector with the step added to \<open>param[i]\<close> alone.
  The step is computed from the float product \<open>dB = param[i] * 2^-10\<close>. The guard
  compares \<open>dB\<close> with the double nearest \<open>1e-31\<close>, not with \<open>1e-30\<close>: a finite \<open>dB\<close> of
  magnitude below that double is replaced by the float nearest \<open>1e-30\<close>, which is
  positive, and every other \<open>dB\<close> is the step as it is. The step is never a zero.
\<close>

theorem jacobian_v2_step_guard:
  assumes N: "0 \<le> N" "N < 2 ^ 31" and K: "0 \<le> K" "K < 2 ^ 31" and NK: "N * K < 2 ^ 31"
    and len: "length (param s) = nat K"
    and fl: "\<forall>p\<in>set (param s). is_float binary32 p"
    and J: "J + nat (N * K) \<le> Suc (brk s)"
    and room: "Suc (brk s) + nat N + Suc (nat N) \<le> cap s"
  shows "eps10 = Finite False (1 / 2 ^ 10) \<and>
    lit_1e31 = Finite False (35681192317649 / 2 ^ 148) \<and>
    cvt binary32 lit_1e30 = Finite False (332307 / 2 ^ 118) \<and>
    (\<exists>s'. jacobian_v2 J f N K s = Inr s' \<and>
      evals s' = evals s @ param s #
        map (\<lambda>i. (param s)[i := fadd binary32 (param s ! i) (step_v2 (param s ! i))])
          [0..<nat K]) \<and>
    (\<forall>i<nat K.
      (case fmul binary32 (param s ! i) eps10 of
         Finite t d \<Rightarrow>
           step_v2 (param s ! i) =
             (if d < 35681192317649 / 2 ^ 148 then Finite False (332307 / 2 ^ 118)
              else Finite t d)
       | Infinity t \<Rightarrow> step_v2 (param s ! i) = Infinity t
       | NaN \<Rightarrow> step_v2 (param s ! i) = NaN) \<and>
      (\<forall>t. step_v2 (param s ! i) \<noteq> Finite t 0))"
proof -
  obtain n k where n: "N = int n" and k: "K = int k"
    using N(1) K(1) by (metis nat_0_le)
  have room': "Suc (brk s) + n + Suc n \<le> cap s" using room n by simp
  have J': "J + n * k \<le> Suc (brk s)" using J n k by simp
  have "int (n * k) < int (2 ^ 31)" using NK n k by simp
  then have nk: "n * k < 2 ^ 31" by (simp only: of_nat_less_iff)
  have run: "\<exists>s'. jacobian_v2 J f N K s = Inr s' \<and>
      evals s' = evals s @ param s #
        map (\<lambda>i. (param s)[i := fadd binary32 (param s ! i) (step_v2 (param s ! i))])
          [0..<nat K]"
    using jacobian_v2_result [OF room' J' nk, of f] by (auto simp: n k)
  have g: "case fmul binary32 (param s ! i) eps10 of
         Finite t d \<Rightarrow>
           step_v2 (param s ! i) =
             (if d < 35681192317649 / 2 ^ 148 then Finite False (332307 / 2 ^ 118)
              else Finite t d)
       | Infinity t \<Rightarrow> step_v2 (param s ! i) = Infinity t
       | NaN \<Rightarrow> step_v2 (param s ! i) = NaN" if "i < nat K" for i
  proof -
    have "param s ! i \<in> set (param s)" using that len by simp
    then have "is_float binary32 (param s ! i)" using fl by blast
    then show ?thesis by (rule step_v2_guard)
  qed
  show ?thesis
    using run g step_v2_nonzero by (simp add: eps10_value lit_1e31_value floor_1e30)
qed

text \<open>
  The call with the affine evaluator, two samples and the parameters \<open>0.0\<close> and
  \<open>-2^-100\<close>: both steps are replaced by the float nearest \<open>1e-30\<close>.
\<close>

theorem jacobian_v2_step_guard_witness:
  "0 \<le> (2::int) \<and> (2::int) < 2 ^ 31 \<and> (2::int) * 2 < 2 ^ 31 \<and>
   length (param host_tiny) = nat 2 \<and>
   is_float binary32 (param host_tiny ! 0) \<and> is_float binary32 (param host_tiny ! 1) \<and>
   1 + nat (2 * 2) \<le> Suc (brk host_tiny) \<and>
   Suc (brk host_tiny) + nat 2 + Suc (nat 2) \<le> cap host_tiny \<and>
   (\<exists>s'. jacobian_v2 1 flinear 2 2 host_tiny = Inr s' \<and>
      evals s' = [[Finite False 0, Finite True (1 / 2 ^ 100)],
        [Finite False (332307 / 2 ^ 118), Finite True (1 / 2 ^ 100)],
        [Finite False 0, Finite False (70163 / 2 ^ 118)]]) \<and>
   fmul binary32 (param host_tiny ! 1) eps10 = Finite True (1 / 2 ^ 110) \<and>
   step_v2 (param host_tiny ! 0) = Finite False (332307 / 2 ^ 118) \<and>
   step_v2 (param host_tiny ! 1) = Finite False (332307 / 2 ^ 118)"
proof -
  have f1: "is_float binary32 (Finite True (1 / 2 ^ 100))" by code_simp
  have p: "param host_tiny = [Finite False 0, Finite True (1 / 2 ^ 100)]"
    "evals host_tiny = []" "brk host_tiny = 10" "cap host_tiny = 64"
    by (simp_all add: host_tiny_def host0_def)
  have h: "0 \<le> (2::int)" "(2::int) < 2 ^ 31" "0 \<le> (2::int)" "(2::int) < 2 ^ 31"
    "(2::int) * 2 < 2 ^ 31" "length (param host_tiny) = nat 2"
    "\<forall>p\<in>set (param host_tiny). is_float binary32 p"
    "1 + nat (2 * 2) \<le> Suc (brk host_tiny)"
    "Suc (brk host_tiny) + nat 2 + Suc (nat 2) \<le> cap host_tiny"
    using f1 by (simp_all add: p)
  have s1: "step_v2 (Finite True (1 / 2 ^ 100)) = Finite False (332307 / 2 ^ 118)"
    by code_simp
  have a0: "fadd binary32 (Finite False 0) (Finite False (332307 / 2 ^ 118)) =
      Finite False (332307 / 2 ^ 118)"
    by code_simp
  have a1: "fadd binary32 (Finite True (1 / 2 ^ 100)) (Finite False (332307 / 2 ^ 118)) =
      Finite False (70163 / 2 ^ 118)"
    by code_simp
  have d1: "fmul binary32 (Finite True (1 / 2 ^ 100)) eps10 = Finite True (1 / 2 ^ 110)"
    by code_simp
  have "\<exists>s'. jacobian_v2 1 flinear 2 2 host_tiny = Inr s' \<and>
      evals s' = evals host_tiny @ param host_tiny #
        map (\<lambda>i. (param host_tiny)[i := fadd binary32 (param host_tiny ! i)
          (step_v2 (param host_tiny ! i))]) [0..<nat 2]"
    using jacobian_v2_step_guard [OF h, of flinear] by blast
  then have run: "\<exists>s'. jacobian_v2 1 flinear 2 2 host_tiny = Inr s' \<and>
      evals s' = [[Finite False 0, Finite True (1 / 2 ^ 100)],
        [Finite False (332307 / 2 ^ 118), Finite True (1 / 2 ^ 100)],
        [Finite False 0, Finite False (70163 / 2 ^ 118)]]"
    using s1 a0 a1 by (simp add: p upt_2 step_v2_zero del: fadd.simps)
  show ?thesis
    using run f1 s1 d1 by (simp add: p step_v2_zero del: fmul.simps)
qed

text \<open>
  Claim C4 as stated fails: in the call with the parameters \<open>2^-90\<close> and \<open>3\<close> the
  product is \<open>dB = 2^-100\<close>, whose magnitude is below \<open>1e-30\<close>, and the evaluator is
  called on \<open>2^-90 + 2^-100\<close>: the step stays \<open>2^-100\<close>, it is not replaced by \<open>1e-30\<close>.
\<close>

theorem jacobian_v2_step_below_1e30:
  "fmul binary32 (param host_small ! 0) eps10 = Finite False (1 / 2 ^ 100) \<and>
   flt (Finite False (1 / 2 ^ 100)) lit_1e30 \<and>
   flt (fneg lit_1e30) (Finite False (1 / 2 ^ 100)) \<and>
   (\<exists>s'. jacobian_v2 1 flinear 2 2 host_small = Inr s' \<and>
      evals s' = [[Finite False (1 / 2 ^ 90), Finite False 3],
        [Finite False (1 / 2 ^ 90 + 1 / 2 ^ 100), Finite False 3],
        [Finite False (1 / 2 ^ 90), Finite False (3 + 3 / 1024)]]) \<and>
   fadd binary32 (param host_small ! 0) (cvt binary32 lit_1e30) \<noteq>
     Finite False (1 / 2 ^ 90 + 1 / 2 ^ 100)"
proof -
  have p: "param host_small = [Finite False (1 / 2 ^ 90), Finite False 3]"
    "evals host_small = []" "brk host_small = 10" "cap host_small = 64"
    by (simp_all add: host_small_def host0_def)
  have d: "fmul binary32 (Finite False (1 / 2 ^ 90)) eps10 = Finite False (1 / 2 ^ 100)"
    by code_simp
  have l: "flt (Finite False (1 / 2 ^ 100)) lit_1e30"
    "flt (fneg lit_1e30) (Finite False (1 / 2 ^ 100))"
    by code_simp+
  have a0: "fadd binary32 (Finite False (1 / 2 ^ 90)) (step_v2 (Finite False (1 / 2 ^ 90))) =
      Finite False (1 / 2 ^ 90 + 1 / 2 ^ 100)"
    by code_simp
  have a1: "fadd binary32 (Finite False 3) (step_v2 (Finite False 3)) =
      Finite False (3 + 3 / 1024)"
    by code_simp
  have ne: "fadd binary32 (Finite False (1 / 2 ^ 90)) (cvt binary32 lit_1e30) \<noteq>
      Finite False (1 / 2 ^ 90 + 1 / 2 ^ 100)"
    by code_simp
  have room: "Suc (brk host_small) + 2 + Suc 2 \<le> cap host_small"
    and J: "1 + 2 * 2 \<le> Suc (brk host_small)" and nk: "(2::nat) * 2 < 2 ^ 31"
    by (simp_all add: p)
  have "\<exists>s'. jacobian_v2 1 flinear (int 2) (int 2) host_small = Inr s' \<and>
      evals s' = evals host_small @ param host_small #
        map (\<lambda>i. (param host_small)[i := fadd binary32 (param host_small ! i)
          (step_v2 (param host_small ! i))]) [0..<2]"
    using jacobian_v2_result [OF room J nk, of flinear] by blast
  then have run: "\<exists>s'. jacobian_v2 1 flinear 2 2 host_small = Inr s' \<and>
      evals s' = [[Finite False (1 / 2 ^ 90), Finite False 3],
        [Finite False (1 / 2 ^ 90 + 1 / 2 ^ 100), Finite False 3],
        [Finite False (1 / 2 ^ 90), Finite False (3 + 3 / 1024)]]"
    using a0 a1 by (simp add: p upt_2 del: fadd.simps)
  show ?thesis
    using run d l ne by (simp add: p del: fadd.simps fmul.simps flt.simps)
qed

text \<open>
  Claim C10. Let \<^verbatim>\<open>jacobian_v2\<close> be called as above, and let the guard replace the step
  of the nonzero \<^verbatim>\<open>float\<close> parameter \<open>param[i]\<close> of sign \<open>s\<close> and magnitude \<open>m\<close>. The
  evaluator is called on the vector with the positive float nearest \<open>1e-30\<close> added to
  \<open>param[i]\<close>, whatever the sign. Column \<open>i\<close> of \<open>J\<close> is the difference of the
  evaluations multiplied by the scale factor, which is the reciprocal of the unclamped
  product \<open>m * 2^-10\<close>, rounded to double and then to float, with the sign of the
  parameter: an infinity or a float of magnitude at least \<open>2^102\<close>. The reciprocal of
  the step applied is the float \<open>13234890 * 2^76\<close>, below \<open>2^100\<close>, so the scale factor
  is not that reciprocal, and for a negative parameter it has the opposite sign.
\<close>

theorem jacobian_v2_clamped_scale:
  assumes N: "0 \<le> N" "N < 2 ^ 31" and K: "0 \<le> K" "K < 2 ^ 31" and NK: "N * K < 2 ^ 31"
    and len: "length (param s) = nat K"
    and J: "J + nat (N * K) \<le> Suc (brk s)"
    and room: "Suc (brk s) + nat N + Suc (nat N) \<le> cap s"
    and i: "i < nat K" and p: "param s ! i = Finite sg m"
    and fl: "is_float binary32 (Finite sg m)" and m: "0 < m"
    and g: "too_small (fmul binary32 (Finite sg m) eps10)"
  shows "cvt binary32 lit_1e30 = Finite False (332307 / 2 ^ 118) \<and>
    (\<exists>s'. jacobian_v2 J f N K s = Inr s' \<and>
      evals s' ! (length (evals s) + Suc i) =
        (param s)[i := fadd binary32 (Finite sg m) (Finite False (332307 / 2 ^ 118))] \<and>
      (\<forall>t<nat N. mem s' (J + i * nat N + t) =
        fmul binary32
          (fsub binary32
            (f ((param s)[i := fadd binary32 (Finite sg m) (Finite False (332307 / 2 ^ 118))])
               N t)
            (f (param s) N t))
          (scale_v2 (Finite sg m)))) \<and>
    scale_v2 (Finite sg m) = cvt binary32 (round_to binary64 sg (1 / (m / 2 ^ 10))) \<and>
    (scale_v2 (Finite sg m) = Infinity sg \<or>
     (\<exists>y. 2 ^ 102 \<le> y \<and> scale_v2 (Finite sg m) = Finite sg y)) \<and>
    reciprocal (Finite False (332307 / 2 ^ 118)) = Finite False (13234890 * 2 ^ 76) \<and>
    scale_v2 (Finite sg m) \<noteq> reciprocal (Finite False (332307 / 2 ^ 118))"
proof -
  obtain n k where n: "N = int n" and k: "K = int k"
    using N(1) K(1) by (metis nat_0_le)
  have room': "Suc (brk s) + n + Suc n \<le> cap s" using room n by simp
  have J': "J + n * k \<le> Suc (brk s)" using J n k by simp
  have "int (n * k) < int (2 ^ 31)" using NK n k by simp
  then have nk: "n * k < 2 ^ 31" by (simp only: of_nat_less_iff)
  have ik: "i < k" using i k by simp
  have st: "step_v2 (Finite sg m) = Finite False (332307 / 2 ^ 118)"
    using g by (simp add: step_v2_def Let_def floor_1e30)
  obtain s' where s': "jacobian_v2 J f (int n) (int k) s = Inr s'"
    and ev: "evals s' = evals s @ param s #
       map (\<lambda>i. (param s)[i := fadd binary32 (param s ! i) (step_v2 (param s ! i))]) [0..<k]"
    and col: "\<forall>i<k. \<forall>t<n. mem s' (J + i * n + t) =
       fmul binary32
         (fsub binary32
           (f ((param s)[i := fadd binary32 (param s ! i) (step_v2 (param s ! i))]) (int n) t)
           (f (param s) (int n) t))
         (scale_v2 (param s ! i))"
    using jacobian_v2_result [OF room' J' nk, of f] by blast
  have "evals s' ! (length (evals s) + Suc i) =
      map (\<lambda>i. (param s)[i := fadd binary32 (param s ! i) (step_v2 (param s ! i))]) [0..<k] ! i"
    unfolding ev by (simp add: nth_append)
  then have e: "evals s' ! (length (evals s) + Suc i) =
      (param s)[i := fadd binary32 (Finite sg m) (Finite False (332307 / 2 ^ 118))]"
    using ik by (simp add: p st)
  have c: "mem s' (J + i * n + t) =
      fmul binary32
        (fsub binary32
          (f ((param s)[i := fadd binary32 (Finite sg m) (Finite False (332307 / 2 ^ 118))])
             (int n) t)
          (f (param s) (int n) t))
        (scale_v2 (Finite sg m))" if "t < n" for t
    using col ik that by (simp add: p st)
  have run: "\<exists>s'. jacobian_v2 J f N K s = Inr s' \<and>
      evals s' ! (length (evals s) + Suc i) =
        (param s)[i := fadd binary32 (Finite sg m) (Finite False (332307 / 2 ^ 118))] \<and>
      (\<forall>t<nat N. mem s' (J + i * nat N + t) =
        fmul binary32
          (fsub binary32
            (f ((param s)[i := fadd binary32 (Finite sg m) (Finite False (332307 / 2 ^ 118))])
               N t)
            (f (param s) N t))
          (scale_v2 (Finite sg m)))"
    using s' e c by (simp add: n k)
  have re: "reciprocal (Finite False (332307 / 2 ^ 118)) = Finite False (13234890 * 2 ^ 76)"
    unfolding reciprocal_def by (rule recip_floor_1e30)
  have sc: "scale_v2 (Finite sg m) = cvt binary32 (round_to binary64 sg (1 / (m / 2 ^ 10)))"
    using scale_v2_float [OF fl m] by simp
  have cl: "scale_v2 (Finite sg m) = Infinity sg \<or>
     (\<exists>y. 2 ^ 102 \<le> y \<and> scale_v2 (Finite sg m) = Finite sg y)"
    using scale_v2_clamped [OF fl m g] by simp
  have "(13234890 * 2 ^ 76 :: rat) < 2 ^ 102" by simp
  then have ne: "scale_v2 (Finite sg m) \<noteq> Finite False (13234890 * 2 ^ 76)"
    using cl by auto
  show ?thesis
    unfolding re using run sc cl ne floor_1e30 by blast
qed

text \<open>
  The call with the affine evaluator, two samples and the parameters \<open>a = 0.0\<close> and
  \<open>b = -2^-100\<close>, at \<open>i = 1\<close>: the evaluator is called on \<open>b + 1e-30 > 0\<close>, the scale
  factor is \<open>-2^110\<close>, and both entries of column 1, whose exact derivative is \<open>1\<close>,
  are \<open>-332307 / 256\<close>.
\<close>

theorem jacobian_v2_clamped_scale_witness:
  "0 \<le> (2::int) \<and> (2::int) < 2 ^ 31 \<and> (2::int) * 2 < 2 ^ 31 \<and>
   length (param host_tiny) = nat 2 \<and> 1 + nat (2 * 2) \<le> Suc (brk host_tiny) \<and>
   Suc (brk host_tiny) + nat 2 + Suc (nat 2) \<le> cap host_tiny \<and> 1 < nat 2 \<and>
   param host_tiny ! 1 = Finite True (1 / 2 ^ 100) \<and>
   is_float binary32 (Finite True (1 / 2 ^ 100)) \<and> (0::rat) < 1 / 2 ^ 100 \<and>
   too_small (fmul binary32 (Finite True (1 / 2 ^ 100)) eps10) \<and>
   (\<exists>s'. jacobian_v2 1 flinear 2 2 host_tiny = Inr s' \<and>
      evals s' ! 2 = [Finite False 0, Finite False (70163 / 2 ^ 118)] \<and>
      mem s' 3 = Finite True (332307 / 256) \<and> mem s' 4 = Finite True (332307 / 256)) \<and>
   mem host_tiny 3 = Finite False 0 \<and> mem host_tiny 4 = Finite False 0 \<and>
   scale_v2 (Finite True (1 / 2 ^ 100)) = Finite True (2 ^ 110) \<and>
   reciprocal (Finite False (332307 / 2 ^ 118)) = Finite False (13234890 * 2 ^ 76)"
proof -
  have f1: "is_float binary32 (Finite True (1 / 2 ^ 100))" by code_simp
  have m: "(0::rat) < 1 / 2 ^ 100" by simp
  have g: "too_small (fmul binary32 (Finite True (1 / 2 ^ 100)) eps10)" by code_simp
  have v: "scale_v2 (Finite True (1 / 2 ^ 100)) = Finite True (2 ^ 110)" by code_simp
  have p: "param host_tiny = [Finite False 0, Finite True (1 / 2 ^ 100)]"
    "evals host_tiny = []" "brk host_tiny = 10" "cap host_tiny = 64"
    "mem host_tiny = (\<lambda>x. Finite False 0)"
    by (simp_all add: host_tiny_def host0_def)
  have p1: "param host_tiny ! 1 = Finite True (1 / 2 ^ 100)" by (simp add: p)
  have h: "0 \<le> (2::int)" "(2::int) < 2 ^ 31" "0 \<le> (2::int)" "(2::int) < 2 ^ 31"
    "(2::int) * 2 < 2 ^ 31" "length (param host_tiny) = nat 2"
    "1 + nat (2 * 2) \<le> Suc (brk host_tiny)"
    "Suc (brk host_tiny) + nat 2 + Suc (nat 2) \<le> cap host_tiny" "1 < nat 2"
    by (simp_all add: p)
  have a1: "fadd binary32 (Finite True (1 / 2 ^ 100)) (Finite False (332307 / 2 ^ 118)) =
      Finite False (70163 / 2 ^ 118)"
    by code_simp
  have c0: "fmul binary32
      (fsub binary32 (flinear [Finite False 0, Finite False (70163 / 2 ^ 118)] 2 0)
        (flinear [Finite False 0, Finite True (1 / 2 ^ 100)] 2 0))
      (scale_v2 (Finite True (1 / 2 ^ 100))) = Finite True (332307 / 256)"
    by code_simp
  have c1: "fmul binary32
      (fsub binary32 (flinear [Finite False 0, Finite False (70163 / 2 ^ 118)] 2 (Suc 0))
        (flinear [Finite False 0, Finite True (1 / 2 ^ 100)] 2 (Suc 0)))
      (scale_v2 (Finite True (1 / 2 ^ 100))) = Finite True (332307 / 256)"
    by code_simp
  note c = jacobian_v2_clamped_scale [OF h p1 f1 m g, where f = flinear]
  have re: "reciprocal (Finite False (332307 / 2 ^ 118)) = Finite False (13234890 * 2 ^ 76)"
    using c by blast
  have "\<exists>s'. jacobian_v2 1 flinear 2 2 host_tiny = Inr s' \<and>
      evals s' ! (length (evals host_tiny) + Suc 1) =
        (param host_tiny)[1 := fadd binary32 (Finite True (1 / 2 ^ 100))
          (Finite False (332307 / 2 ^ 118))] \<and>
      (\<forall>t<nat 2. mem s' (1 + 1 * nat 2 + t) =
        fmul binary32
          (fsub binary32
            (flinear ((param host_tiny)[1 := fadd binary32 (Finite True (1 / 2 ^ 100))
                (Finite False (332307 / 2 ^ 118))]) 2 t)
            (flinear (param host_tiny) 2 t))
          (scale_v2 (Finite True (1 / 2 ^ 100))))"
    using c by blast
  then obtain s' where s': "jacobian_v2 1 flinear 2 2 host_tiny = Inr s'"
    and e: "evals s' ! 2 = [Finite False 0, Finite False (70163 / 2 ^ 118)]"
    and cells: "\<forall>t<2. mem s' (3 + t) =
        fmul binary32
          (fsub binary32
            (flinear [Finite False 0, Finite False (70163 / 2 ^ 118)] 2 t)
            (flinear [Finite False 0, Finite True (1 / 2 ^ 100)] 2 t))
          (scale_v2 (Finite True (1 / 2 ^ 100)))"
    unfolding p a1 by (auto simp: numeral_2_eq_2 numeral_3_eq_3)
  have "mem s' (3 + 0) = Finite True (332307 / 256)"
    using cells c0 by (simp only: zero_less_numeral)
  then have m3: "mem s' 3 = Finite True (332307 / 256)" by simp
  have "mem s' (3 + Suc 0) = Finite True (332307 / 256)"
    using cells c1 by (simp only: numeral_2_eq_2 lessI)
  then have m4: "mem s' 4 = Finite True (332307 / 256)" by simp
  have run: "\<exists>s'. jacobian_v2 1 flinear 2 2 host_tiny = Inr s' \<and>
      evals s' ! 2 = [Finite False 0, Finite False (70163 / 2 ^ 118)] \<and>
      mem s' 3 = Finite True (332307 / 256) \<and> mem s' 4 = Finite True (332307 / 256)"
    using s' e m3 m4 by blast
  have z: "mem host_tiny 3 = Finite False 0" "mem host_tiny 4 = Finite False 0"
    by (simp_all add: p)
  show ?thesis
    by (intro conjI h(1,2,5,6,7,8,9) p1 f1 m g run z v re)
qed

text \<open>
  For a parameter that is a zero the scale factor is an infinity, and every entry of the
  column is a NaN or an infinity, whatever the evaluator.
\<close>

lemma jacobian_v2_zero_param:
  assumes room: "Suc (brk s) + n + Suc n \<le> cap s"
    and J: "J + n * k \<le> Suc (brk s)" and i: "i < k" and t: "t < n"
    and nk: "n * k < 2 ^ 31"
    and z: "param s ! i = Finite sg 0"
  shows "\<exists>s'. jacobian_v2 J f (int n) (int k) s = Inr s' \<and>
     step_v2 (param s ! i) = Finite False (332307 / 2 ^ 118) \<and>
     is_nan_or_inf (mem s' (J + i * n + t))"
  using jacobian_v2_column [OF room J i t nk, of f]
  by (auto simp: z scale_v2_zero step_v2_zero fmul_infinity)

text \<open>
  Claim C3 at the affine model with \<open>a = 0.0\<close>, \<open>b = 3\<close> and two samples: the guard
  replaces the step by the float nearest \<open>1e-30\<close>, the scale factor is \<open>+infinity\<close>,
  and both entries of column 0 of the Jacobian are NaN.
\<close>

theorem jacobian_v2_zero_param_nan:
  "param host_zero ! 0 = Finite False 0 \<and>
   step_v2 (param host_zero ! 0) = Finite False (332307 / 2 ^ 118) \<and>
   scale_v2 (param host_zero ! 0) = Infinity False \<and>
   (\<exists>s'. jacobian_v2 1 flinear 2 2 host_zero = Inr s' \<and> mem s' 1 = NaN \<and> mem s' 2 = NaN)"
proof -
  have p: "param host_zero ! 0 = Finite False 0"
    by (simp add: host_zero_def)
  have room: "Suc (brk host_zero) + 2 + Suc 2 \<le> cap host_zero"
    and J: "1 + 2 * 2 \<le> Suc (brk host_zero)"
    by (simp_all add: host_zero_def host0_def)
  have e0: "fmul binary32
      (fsub binary32
        (flinear ((param host_zero)[0 := fadd binary32 (param host_zero ! 0)
            (step_v2 (param host_zero ! 0))]) (int 2) 0)
        (flinear (param host_zero) (int 2) 0))
      (scale_v2 (param host_zero ! 0)) = NaN"
    by code_simp
  have e1: "fmul binary32
      (fsub binary32
        (flinear ((param host_zero)[0 := fadd binary32 (param host_zero ! 0)
            (step_v2 (param host_zero ! 0))]) (int 2) 1)
        (flinear (param host_zero) (int 2) 1))
      (scale_v2 (param host_zero ! 0)) = NaN"
    by code_simp
  obtain s' where s': "jacobian_v2 1 flinear (int 2) (int 2) host_zero = Inr s'"
    using jacobian_v2_returns [OF room, of 1 flinear 2] by auto
  have "mem s' (1 + 0 * 2 + 0) = NaN"
    using jacobian_v2_column [OF room J, of 0 0 flinear] s' unfolding e0 by simp
  then have m1: "mem s' 1 = NaN" by simp
  have "mem s' (1 + 0 * 2 + 1) = NaN"
    using jacobian_v2_column [OF room J, of 0 1 flinear] s' unfolding e1 by simp
  then have m2: "mem s' 2 = NaN" by (simp add: numeral_2_eq_2)
  show ?thesis
    using s' m1 m2 by (simp add: p step_v2_zero scale_v2_zero)
qed

section \<open>Properties of the kernels and matrix primitives\<close>

lemma unat_of_nat32: "n < 2 ^ 32 \<Longrightarrow> unat (of_nat n :: 32 word) = n"
  by (simp add: unat_of_nat)

lemma unat_of_int32:
  assumes "0 \<le> M" and "M < 2 ^ 32"
  shows "unat (word_of_int M :: 32 word) = nat M"
proof -
  have "(word_of_int M :: 32 word) = of_nat (nat M)"
    using assms(1) by simp
  moreover have "nat M < 2 ^ 32" using assms by (simp add: nat_less_iff)
  ultimately show ?thesis by (simp add: unat_of_nat32)
qed

lemma sint_of_nat32:
  assumes "n < 2 ^ 31"
  shows "sint (of_nat n :: 32 word) = int n"
proof -
  have "unat (of_nat n :: 32 word) = n" using assms by (intro unat_of_nat32) simp
  then have "uint (of_nat n :: 32 word) = int n" by (simp add: uint_nat)
  moreover have "int n < int (2 ^ 31)" using assms by (simp only: of_nat_less_iff)
  then have "int n < 2 ^ 31" by simp
  ultimately show ?thesis
    by (simp add: sint_uint signed_take_bit_int_eq_self)
qed

lemma sdiv_nonneg: "0 \<le> a \<Longrightarrow> 0 < b \<Longrightarrow> (a::int) sdiv b = a div b"
  by (cases "a = 0") (simp_all add: signed_divide_int_def)


subsection \<open>The design-matrix builder\<close>

lemma foldl_preserve:
  assumes "Q m" and "\<And>m t. Q m \<Longrightarrow> Q (f m t)"
  shows "Q (foldl f m ts)"
  using assms(1) by (induction ts arbitrary: m) (simp_all add: assms(2))

lemma foldl_establish:
  assumes "t0 \<in> set ts" and "\<And>m. Q (f m t0)" and "\<And>m t. Q m \<Longrightarrow> Q (f m t)"
  shows "Q (foldl f m ts)"
proof -
  obtain xs ys where "ts = xs @ t0 # ys" using assms(1) by (auto dest: split_list)
  then have "foldl f m ts = foldl f (f (foldl f m xs) t0) ys" by simp
  then show ?thesis using assms(2,3) by (simp add: foldl_preserve)
qed

lemma of_int_fmt_1: "of_int_fmt binary32 1 = Finite False 1"
  by code_simp

lemma lincoef_kernel_keeps:
  assumes "0 < N" and "m (A + nat (2 * N)) = Finite False 1"
  shows "lincoef_kernel A N bd b t m (A + nat (2 * N)) = Finite False 1"
  using assms by (auto simp: lincoef_kernel_def Let_def of_int_fmt_1)

lemma lincoef_kernel_sets:
  assumes "0 < N" and "2 * N < 2 ^ 31"
    and "sint (of_nat bd * of_nat b + of_nat t :: 32 word) = N"
  shows "lincoef_kernel A N bd b t m (A + nat (2 * N)) = Finite False 1"
proof -
  have "int32 (N + N) = N + N" using assms(1,2) by (intro int32_id) simp_all
  then have "nat (int A + int32 (N + N)) = A + nat (2 * N)" using assms(1) by simp
  then show ?thesis using assms by (simp add: lincoef_kernel_def Let_def of_int_fmt_1)
qed

text \<open>
  Whenever \<open>N\<close> is not a multiple of the threads per block, with \<open>2N\<close> in the range of
  \<^verbatim>\<open>int\<close> and at most 1024 threads per block, the thread of index \<open>N\<close> exists and
  stores \<open>1\<close> in \<open>A[2N]\<close>, the first cell after the \<open>2N\<close> cells of the design matrix.
\<close>

lemma lincoef_writes_outside:
  assumes N: "0 < N" "2 * N < 2 ^ 31" and tpb: "0 < tpb" "tpb \<le> 1024"
    and nd: "N mod int tpb \<noteq> 0"
  shows "mem (lincoef tpb A N g) (A + nat (2 * N)) = Finite False 1"
proof -
  define n where "n = nat N"
  have N31: "N < 2 ^ 31" using N by simp
  have Nn: "N = int n" and n31: "n < 2 ^ 31" using N(1) N31 by (simp_all add: n_def nat_less_iff)
  have "int tpb \<le> int 1024" using tpb(2) by (simp only: of_nat_le_iff)
  then have t1024: "int tpb \<le> 1024" by simp
  define b0 where "b0 = n div tpb"
  define t0 where "t0 = n mod tpb"
  have t0: "0 < t0" "t0 < tpb" using nd tpb by (simp_all add: t0_def Nn flip: of_nat_mod)
  have n: "n = tpb * b0 + t0" by (simp add: b0_def t0_def)
  have q: "int32 (N + int tpb - 1) sdiv int tpb = int ((n + tpb - 1) div tpb)"
  proof -
    have "int32 (N + int tpb - 1) = N + int tpb - 1"
      using N t1024 by (intro int32_id) simp_all
    moreover have "(N + int tpb - 1) sdiv int tpb = (N + int tpb - 1) div int tpb"
      using N tpb by (intro sdiv_nonneg) simp_all
    moreover have "(N + int tpb - 1) div int tpb = int ((n + tpb - 1) div tpb)"
      using tpb by (simp add: Nn zdiv_int of_nat_diff)
    ultimately show ?thesis by (simp only:)
  qed
  have "(n + tpb - 1) div tpb \<le> n + tpb - 1" by (rule div_le_dividend)
  also have "\<dots> < 2 ^ 31" using n31 N(2) tpb(2) by (simp add: Nn)
  finally have bl31: "(n + tpb - 1) div tpb < 2 ^ 31" .
  then have "(n + tpb - 1) div tpb < 2 ^ 32" by simp
  then have blocks: "unat (word_of_int (int32 (N + int tpb - 1) sdiv int tpb) :: 32 word) =
      (n + tpb - 1) div tpb"
    unfolding q by (simp add: unat_of_nat32)
  have "Suc b0 * tpb \<le> n + tpb - 1" using t0 n by (simp add: algebra_simps)
  then have "Suc b0 \<le> (n + tpb - 1) div tpb"
    using tpb by (simp only: less_eq_div_iff_mult_less_eq)
  then have b0: "b0 < (n + tpb - 1) div tpb" by simp
  have mem: "(b0, t0) \<in> set (List.product [0..<(n + tpb - 1) div tpb] [0..<tpb])"
    using b0 t0 by simp
  have "(of_nat tpb * of_nat b0 + of_nat t0 :: 32 word) = of_nat n"
    by (simp add: n)
  then have idx: "sint (of_nat tpb * of_nat b0 + of_nat t0 :: 32 word) = N"
    using sint_of_nat32 [OF n31] by (simp only: Nn)
  have "foldl (\<lambda>m (b, t). lincoef_kernel A N tpb b t m) (mem g)
          (List.product [0..<(n + tpb - 1) div tpb] [0..<tpb]) (A + nat (2 * N)) = Finite False 1"
  proof (rule foldl_establish [where Q = "\<lambda>m. m (A + nat (2 * N)) = Finite False 1",
        OF mem])
    show "(case (b0, t0) of (b, t) \<Rightarrow> lincoef_kernel A N tpb b t m) (A + nat (2 * N)) =
        Finite False 1" for m
      using lincoef_kernel_sets [OF N idx, of A m] by simp
    show "(case t of (b, t) \<Rightarrow> lincoef_kernel A N tpb b t m) (A + nat (2 * N)) = Finite False 1"
      if "m (A + nat (2 * N)) = Finite False 1" for m t
      using lincoef_kernel_keeps [of N m A] N(1) that by (cases t) simp
  qed
  moreover have "launch_ok ((n + tpb - 1) div tpb, 1) (tpb, 1)"
    using b0 bl31 tpb by (simp add: launch_ok_def)
  ultimately show ?thesis by (simp add: lincoef_def launch_def blocks Let_def)
qed

text \<open>
  Claim C8 at \<open>N = 1\<close> with 256 threads per block, on a buffer at cell 1: cell 3, which
  is \<open>A[2]\<close> and lies outside the two cells of the design matrix, is overwritten with
  \<open>1\<close>.
\<close>

theorem lincoef_overruns:
  "mem dev0 3 = Finite False 0 \<and> mem (lincoef 256 1 1 dev0) 3 = Finite False 1"
proof -
  have e: "1 + nat (2 * 1) = (3::nat)" by simp
  have "mem (lincoef 256 1 1 dev0) (1 + nat (2 * 1)) = Finite False 1"
    by (rule lincoef_writes_outside) simp_all
  then have "mem (lincoef 256 1 1 dev0) 3 = Finite False 1" by (simp only: e)
  moreover have "mem dev0 3 = Finite False 0" by (simp add: dev0_def)
  ultimately show ?thesis by (rule conjI [rotated])
qed

subsection \<open>Transpose in place and its scratch buffer\<close>

lemma matrix_transpose_in_place_live:
  assumes "matrix_transpose bd blk A A M N g = Inr g'"
  shows "live g' = (Suc (brk g), nat (int32 (M * N))) # live g"
  using assms
  by (auto simp: matrix_transpose_def cudaMalloc_def Let_def split: option.splits if_splits)

text \<open>
  Claim C9 at an in-place transpose of a 2 by 2 matrix at cell 1: when
  \<^verbatim>\<open>matrix::transpose\<close> returns, the snapshot buffer of four cells that it allocated at
  cell 5 is still live.
\<close>

theorem matrix_transpose_in_place_leaks:
  "live dev0 = [(1, 4)] \<and>
   (\<exists>g'. matrix_transpose 16 blk 1 1 2 2 dev0 = Inr g' \<and> live g' = [(5, 4), (1, 4)])"
  by (simp add: matrix_transpose_def cudaMalloc_def Let_def dev0_def int32_id)

subsection \<open>Multiplication\<close>

text \<open>
  Claim C5 at 1 by 1 matrices \<open>A = B = (1)\<close> with \<open>alpha = 1\<close>: the result is \<open>1\<close> for
  \<open>beta = 2\<close> as it is for \<open>beta = 1\<close>. \<open>beta\<close> multiplies the zeroed \<open>C\<close>, not the
  product.
\<close>

theorem matrix_mult_ignores_beta:
  "(\<exists>g'. matrix_mult 1 2 3 (Finite False 1) (Finite False 2) False False 1 1 1 dev1 = Inr g' \<and>
      mem g' 3 = Finite False 1) \<and>
   (\<exists>g'. matrix_mult 1 2 3 (Finite False 1) (Finite False 1) False False 1 1 1 dev1 = Inr g' \<and>
      mem g' 3 = Finite False 1)"
proof -
  have a: "fadd binary32 (fmul binary32 (Finite False 1)
      (fadd binary32 (Finite False 0) (fmul binary32 (Finite False 1) (Finite False 1))))
      (fmul binary32 (Finite False 2) (Finite False 0)) = Finite False 1"
    by code_simp
  have b: "fadd binary32 (fmul binary32 (Finite False 1)
      (fadd binary32 (Finite False 0) (fmul binary32 (Finite False 1) (Finite False 1))))
      (fmul binary32 (Finite False 1) (Finite False 0)) = Finite False 1"
    by code_simp
  have up: "[0..<Suc 0] = [0]" by simp
  show ?thesis
    using a b
    by (simp add: matrix_mult_def cublasSgemm_v2_def cudaMemset0_def in_buf_def dot_def
        is_zero_def dev1_def Let_def int32_id del: fadd.simps fmul.simps)
qed

lemma fmul_one_left:
  assumes "is_float binary32 x"
  shows "fmul binary32 (Finite False 1) x = x"
  using assms by (cases x) (simp_all add: is_float_def round_to_def)

lemma cell_decode:
  assumes "r < (M::nat)"
  shows "(c * M + r) mod M = r" and "(c * M + r) div M = c"
  using assms by simp_all

text \<open>
  Claim C7, as amended. For \<open>M \<ge> 1\<close> rows and \<open>N \<ge> 0\<close> columns, with \<open>M\<close>, \<open>N\<close> and
  \<open>M * N\<close> in the range of \<^verbatim>\<open>int\<close>, the three buffers among the cells handed out
  before the call and an output buffer \<open>C\<close> that overlaps neither \<open>B\<close> nor the
  diagonal vector, \<^verbatim>\<open>multD\<close> returns and entry \<open>(r, c)\<close> of \<open>C\<close> is
  \<open>diagVec[r] * B(r, c)\<close>; in a row \<open>r\<close> with \<open>diagVec[r] = 1.0\<close>, \<open>C\<close> equals \<open>B\<close>
  entry by entry (the cells of \<open>B\<close> hold floats).
\<close>

theorem matrix_multD_diag:
  assumes M: "1 \<le> M" "M < 2 ^ 31" and N: "0 \<le> N" "N < 2 ^ 31" and MN: "M * N < 2 ^ 31"
    and CB: "B + nat (M * N) \<le> C \<or> C + nat (M * N) \<le> B"
    and CA: "A + nat M \<le> C \<or> C + nat (M * N) \<le> A"
    and live: "A + nat M \<le> Suc (brk g)" "B + nat (M * N) \<le> Suc (brk g)"
      "C + nat (M * N) \<le> Suc (brk g)"
  shows "\<exists>g'. matrix_multD A B C M N g = Inr g' \<and>
    (\<forall>r<nat M. \<forall>c<nat N.
       mem g' (C + c * nat M + r) =
         fmul binary32 (mem g (A + r)) (mem g (B + c * nat M + r)) \<and>
       (mem g (A + r) = Finite False 1 \<and> is_float binary32 (mem g (B + c * nat M + r)) \<longrightarrow>
        mem g' (C + c * nat M + r) = mem g (B + c * nat M + r)))"
proof -
  obtain m n where m: "M = int m" and n: "N = int n"
    using M(1) N(1) by (metis nat_0_le order_trans zero_le_one)
  have m1: "1 \<le> m" using M(1) m by simp
  have "int (m * n) < int (2 ^ 31)" using MN m n by simp
  then have mn: "m * n < 2 ^ 31" by (simp only: of_nat_less_iff)
  define m0 where "m0 = (\<lambda>x. if in_buf C (int (m * n)) x then Finite False 0 else mem g x)"
  have e: "int32 (M * N) = int (m * n)"
    using int32_mult [OF mn] by (simp add: m n)
  have "\<not> int (m * n) < 0" by (simp only: not_less of_nat_0_le_iff)
  then have ms: "cudaMemset0 (mem g) C (int32 (M * N)) = Some m0"
    by (simp only: cudaMemset0_def e m0_def if_False)
  have "\<exists>m2. cublasSdgmm_left (int m) (int n) B (int m) A 1 C (int m) m0 = Some m2 \<and>
      (\<forall>r<m. \<forall>c<n. m2 (C + (c * m + r)) = fmul binary32 (m0 (A + r)) (m0 (B + c * m + r)))"
    using m1 by (simp add: cublasSdgmm_left_def Let_def cell_decode nat_add_distrib)
  then obtain m2 where dg: "cublasSdgmm_left (int m) (int n) B (int m) A 1 C (int m) m0 = Some m2"
    and m2: "\<And>r c. r < m \<Longrightarrow> c < n \<Longrightarrow>
      m2 (C + (c * m + r)) = fmul binary32 (m0 (A + r)) (m0 (B + c * m + r))"
    by blast
  define g' where "g' = g\<lparr>mem := m2\<rparr>"
  have ret: "matrix_multD A B C M N g = Inr g'"
    using dg ms by (simp add: matrix_multD_def g'_def flip: m n)
  have cell: "mem g' (C + c * m + r) = fmul binary32 (mem g (A + r)) (mem g (B + c * m + r))"
    if r: "r < m" and c: "c < n" for r c
  proof -
    have col: "c * m + m \<le> n * m" using c by (rule column_le)
    then have lt: "c * m + r < m * n" using r by (simp add: mult.commute)
    have a: "m0 (A + r) = mem g (A + r)"
      using CA r by (auto simp: m0_def m n simp flip: of_nat_mult)
    have b: "m0 (B + c * m + r) = mem g (B + c * m + r)"
      using CB lt by (auto simp: m0_def m n simp flip: of_nat_mult)
    have "mem g' (C + (c * m + r)) = fmul binary32 (m0 (A + r)) (m0 (B + c * m + r))"
      using m2 [OF r c] by (simp add: g'_def)
    then show ?thesis using a b by (simp add: add.assoc)
  qed
  have ident: "mem g' (C + c * m + r) = mem g (B + c * m + r)"
    if "mem g (A + r) = Finite False 1" and "is_float binary32 (mem g (B + c * m + r))"
      and "r < m" and "c < n" for r c
    using that by (simp add: cell fmul_one_left)
  show ?thesis
    using ret cell ident by (simp add: m n)
qed

text \<open>
  The product on the device \<open>dev_mat\<close> with the diagonal \<open>(1, 2)\<close> at cell 1, the 2 by 2
  matrix \<open>B = (7, 8; 9, 10)\<close> (by columns) at cell 7 and \<open>C\<close> at cell 13, whose cells
  hold 13 to 16 before the call: row 0 of \<open>C\<close> is row 0 of \<open>B\<close>, row 1 is doubled.
\<close>

theorem matrix_multD_diag_witness:
  "1 \<le> (2::int) \<and> (2::int) < 2 ^ 31 \<and> (2::int) * 2 < 2 ^ 31 \<and>
   (7::nat) + nat (2 * 2) \<le> 13 \<and> (1::nat) + nat 2 \<le> 13 \<and>
   13 + nat (2 * 2) \<le> Suc (brk dev_mat) \<and>
   mem dev_mat 1 = Finite False 1 \<and> mem dev_mat 2 = Finite False 2 \<and>
   mem dev_mat 7 = Finite False 7 \<and> mem dev_mat 8 = Finite False 8 \<and>
   mem dev_mat 9 = Finite False 9 \<and> mem dev_mat 10 = Finite False 10 \<and>
   mem dev_mat 13 = Finite False 13 \<and> is_float binary32 (mem dev_mat 7) \<and>
   is_float binary32 (mem dev_mat 9) \<and>
   (\<exists>g'. matrix_multD 1 7 13 2 2 dev_mat = Inr g' \<and>
      mem g' 13 = Finite False 7 \<and> mem g' 14 = Finite False 16 \<and>
      mem g' 15 = Finite False 9 \<and> mem g' 16 = Finite False 20 \<and>
      mem g' 13 = mem dev_mat 7 \<and> mem g' 15 = mem dev_mat 9)"
proof -
  have h: "1 \<le> (2::int)" "(2::int) < 2 ^ 31" "0 \<le> (2::int)" "(2::int) < 2 ^ 31"
    "(2::int) * 2 < 2 ^ 31"
    "(7::nat) + nat (2 * 2) \<le> 13 \<or> (13::nat) + nat (2 * 2) \<le> 7"
    "(1::nat) + nat 2 \<le> 13 \<or> (13::nat) + nat (2 * 2) \<le> 1"
    "1 + nat 2 \<le> Suc (brk dev_mat)" "7 + nat (2 * 2) \<le> Suc (brk dev_mat)"
    "13 + nat (2 * 2) \<le> Suc (brk dev_mat)"
    by (simp_all add: dev_mat_def)
  have v: "mem dev_mat 1 = Finite False 1" "mem dev_mat 2 = Finite False 2"
    "mem dev_mat 7 = Finite False 7" "mem dev_mat 8 = Finite False 8"
    "mem dev_mat 9 = Finite False 9" "mem dev_mat 10 = Finite False 10"
    "mem dev_mat 13 = Finite False 13"
    by (simp_all add: dev_mat_def)
  have fl: "is_float binary32 (Finite False 7)" "is_float binary32 (Finite False 9)"
    by code_simp+
  have p: "fmul binary32 (Finite False 1) (Finite False 7) = Finite False 7"
    "fmul binary32 (Finite False 2) (Finite False 8) = Finite False 16"
    "fmul binary32 (Finite False 1) (Finite False 9) = Finite False 9"
    "fmul binary32 (Finite False 2) (Finite False 10) = Finite False 20"
    by code_simp+
  obtain g' where ret: "matrix_multD 1 7 13 2 2 dev_mat = Inr g'"
    and cells: "\<forall>r<nat 2. \<forall>c<nat 2.
       mem g' (13 + c * nat 2 + r) =
         fmul binary32 (mem dev_mat (1 + r)) (mem dev_mat (7 + c * nat 2 + r)) \<and>
       (mem dev_mat (1 + r) = Finite False 1 \<and>
        is_float binary32 (mem dev_mat (7 + c * nat 2 + r)) \<longrightarrow>
        mem g' (13 + c * nat 2 + r) = mem dev_mat (7 + c * nat 2 + r))"
    using matrix_multD_diag [OF h] by blast
  have r: "mem g' 13 = Finite False 7" "mem g' 14 = Finite False 16"
    "mem g' 15 = Finite False 9" "mem g' 16 = Finite False 20"
    using cells [rule_format, of 0 0] cells [rule_format, of 1 0]
      cells [rule_format, of 0 1] cells [rule_format, of 1 1] p
    by (simp_all add: dev_mat_def del: fmul.simps)
  have i: "mem g' 13 = mem dev_mat 7" "mem g' 15 = mem dev_mat 9"
    using r by (simp_all add: v)
  show ?thesis
    using ret r i v fl h(10) by simp
qed

text \<open>
  Claim C7 as stated fails when the output buffer is \<open>B\<close> itself: \<^verbatim>\<open>multD\<close> zeroes
  \<open>C\<close> before the product, so with the 1 by 1 matrix \<open>B = (7)\<close> at cell 7, the diagonal
  \<open>(1)\<close> at cell 1 and \<open>C = B\<close> the result is \<open>0\<close>, not \<open>1 * 7\<close>.
\<close>

theorem matrix_multD_in_place:
  "mem dev_mat 1 = Finite False 1 \<and> mem dev_mat 7 = Finite False 7 \<and>
   fmul binary32 (mem dev_mat 1) (mem dev_mat 7) = Finite False 7 \<and>
   (\<exists>g'. matrix_multD 1 7 7 1 1 dev_mat = Inr g' \<and> mem g' 7 = Finite False 0)"
proof -
  have p: "fmul binary32 (Finite False 1) (Finite False 7) = Finite False 7"
    "fmul binary32 (Finite False 1) (Finite False 0) = Finite False 0"
    by code_simp+
  show ?thesis
    using p
    by (simp add: matrix_multD_def cublasSdgmm_left_def cudaMemset0_def in_buf_def dev_mat_def
        Let_def int32_id del: fmul.simps)
qed

subsection \<open>The transpose kernel\<close>

text \<open>
  As long as the cell numbers fit 32 bits, the index arithmetic of the kernel is that of
  the natural numbers.
\<close>

lemma unat_index32:
  assumes "a * b + c < 2 ^ 32"
  shows "unat (of_nat a * of_nat b + of_nat c :: 32 word) = a * b + c"
proof -
  have "(of_nat a * of_nat b + of_nat c :: 32 word) = of_nat (a * b + c)" by simp
  then show ?thesis using unat_of_nat32 [OF assms] by (simp only:)
qed

lemma cell_bound:
  assumes "x < (m::nat)" and "y < n"
  shows "y * m + x < m * n"
proof -
  have "y * m + m \<le> n * m" using assms(2) by (rule column_le)
  then show ?thesis using assms(1) by (simp add: mult.commute)
qed

lemma transpose_load_nat:
  assumes m: "m < 2 ^ 32" and n: "n < 2 ^ 32" and mn: "m * n \<le> 2 ^ 32"
    and x: "bx * bd + tx < 2 ^ 32" and y: "by * bd + ty < 2 ^ 32"
  shows "transpose_load bd A (int m) (int n) (bx, by) (tx, ty) mem0 blk =
    (if bx * bd + tx < m \<and> by * bd + ty < n
     then blk((ty, tx) := mem0 (A + ((by * bd + ty) * m + (bx * bd + tx)))) else blk)"
proof -
  have ux: "unat (of_nat bx * of_nat bd + of_nat tx :: 32 word) = bx * bd + tx"
    using x by (rule unat_index32)
  have uy: "unat (of_nat by * of_nat bd + of_nat ty :: 32 word) = by * bd + ty"
    using y by (rule unat_index32)
  have um: "unat (of_nat m :: 32 word) = m" and un: "unat (of_nat n :: 32 word) = n"
    using m n by (simp_all add: unat_of_nat32)
  have idx: "unat ((of_nat by * of_nat bd + of_nat ty) * of_nat m +
        (of_nat bx * of_nat bd + of_nat tx) :: 32 word) =
      (by * bd + ty) * m + (bx * bd + tx)"
    if "bx * bd + tx < m" "by * bd + ty < n"
  proof -
    have "(by * bd + ty) * m + (bx * bd + tx) < 2 ^ 32"
      using cell_bound [OF that] mn by simp
    then have "unat (of_nat ((by * bd + ty) * m + (bx * bd + tx)) :: 32 word) =
        (by * bd + ty) * m + (bx * bd + tx)"
      by (rule unat_of_nat32)
    then show ?thesis by simp
  qed
  show ?thesis
    by (simp add: transpose_load_def Let_def word_less_nat_alt ux uy um un idx)
qed

lemma transpose_store_nat:
  assumes m: "m < 2 ^ 32" and n: "n < 2 ^ 32" and mn: "m * n \<le> 2 ^ 32"
    and x: "by * bd + tx < 2 ^ 32" and y: "bx * bd + ty < 2 ^ 32"
  shows "transpose_store bd B (int m) (int n) (bx, by) (tx, ty) blk mem0 =
    (if by * bd + tx < n \<and> bx * bd + ty < m
     then mem0(B + ((bx * bd + ty) * n + (by * bd + tx)) := blk (tx, ty)) else mem0)"
proof -
  have ux: "unat (of_nat by * of_nat bd + of_nat tx :: 32 word) = by * bd + tx"
    using x by (rule unat_index32)
  have uy: "unat (of_nat bx * of_nat bd + of_nat ty :: 32 word) = bx * bd + ty"
    using y by (rule unat_index32)
  have um: "unat (of_nat m :: 32 word) = m" and un: "unat (of_nat n :: 32 word) = n"
    using m n by (simp_all add: unat_of_nat32)
  have idx: "unat ((of_nat bx * of_nat bd + of_nat ty) * of_nat n +
        (of_nat by * of_nat bd + of_nat tx) :: 32 word) =
      (bx * bd + ty) * n + (by * bd + tx)"
    if "by * bd + tx < n" "bx * bd + ty < m"
  proof -
    have "(bx * bd + ty) * n + (by * bd + tx) < 2 ^ 32"
      using cell_bound [OF that] mn by (simp add: mult.commute)
    then have "unat (of_nat ((bx * bd + ty) * n + (by * bd + tx)) :: 32 word) =
        (bx * bd + ty) * n + (by * bd + tx)"
      by (rule unat_of_nat32)
    then show ?thesis by simp
  qed
  show ?thesis
    by (simp add: transpose_store_def Let_def word_less_nat_alt ux uy um un idx)
qed

lemma foldl_preserve_set:
  assumes "P m" and "\<And>m t. t \<in> set ts \<Longrightarrow> P m \<Longrightarrow> P (f m t)"
  shows "P (foldl f m ts)"
proof -
  have "(\<forall>t\<in>set ts. \<forall>m. P m \<longrightarrow> P (f m t)) \<Longrightarrow> P m \<Longrightarrow> P (foldl f m ts)"
    by (induction ts arbitrary: m) simp_all
  then show ?thesis using assms by blast
qed

lemma foldl_establish_set:
  assumes t0: "t0 \<in> set ts" and P0: "P m"
    and P: "\<And>m t. t \<in> set ts \<Longrightarrow> P m \<Longrightarrow> P (f m t)"
    and est: "\<And>m. P m \<Longrightarrow> Q (f m t0)"
    and keep: "\<And>m t. t \<in> set ts \<Longrightarrow> P m \<Longrightarrow> Q m \<Longrightarrow> Q (f m t)"
  shows "P (foldl f m ts) \<and> Q (foldl f m ts)"
proof -
  obtain xs ys where ts: "ts = xs @ t0 # ys" using t0 by (auto dest: split_list)
  have "P (foldl f m xs)"
    using P0 by (rule foldl_preserve_set) (simp add: P ts)
  then have "P (f (foldl f m xs) t0) \<and> Q (f (foldl f m xs) t0)"
    using P [OF t0] est by blast
  then have "(\<lambda>m. P m \<and> Q m) (foldl f (f (foldl f m xs) t0) ys)"
    by (rule foldl_preserve_set) (simp add: P keep ts)
  then show ?thesis by (simp add: ts)
qed

lemma foldl_establish_plain:
  assumes "t0 \<in> set ts" and "\<And>m. Q (f m t0)"
    and "\<And>m t. t \<in> set ts \<Longrightarrow> Q m \<Longrightarrow> Q (f m t)"
  shows "Q (foldl f m ts)"
  using foldl_establish_set [of t0 ts "\<lambda>_. True" m f Q] assms by simp

text \<open>The tile of a block after every thread has loaded its entry.\<close>

lemma tile_loaded:
  assumes m: "m < 2 ^ 32" and n: "n < 2 ^ 32" and mn: "m * n \<le> 2 ^ 32"
    and bx: "bx * bd + bd \<le> 2 ^ 32" and "by": "by * bd + bd \<le> 2 ^ 32"
    and t: "tx < bd" "ty < bd" and v: "bx * bd + tx < m" "by * bd + ty < n"
  shows "foldl (\<lambda>blk t. transpose_load bd A (int m) (int n) (bx, by) t mem0 blk) blk0
      (List.product [0..<bd] [0..<bd]) (ty, tx) =
    mem0 (A + ((by * bd + ty) * m + (bx * bd + tx)))"
proof -
  let ?Q = "\<lambda>blk::tile. blk (ty, tx) = mem0 (A + ((by * bd + ty) * m + (bx * bd + tx)))"
  have ld: "transpose_load bd A (int m) (int n) (bx, by) (tx', ty') mem0 blk =
    (if bx * bd + tx' < m \<and> by * bd + ty' < n
     then blk((ty', tx') := mem0 (A + ((by * bd + ty') * m + (bx * bd + tx')))) else blk)"
    if "tx' < bd" "ty' < bd" for tx' ty' blk
    using that bx "by" by (intro transpose_load_nat [OF m n mn]) simp_all
  show ?thesis
  proof (rule foldl_establish_plain [where ?t0.0 = "(tx, ty)" and Q = ?Q])
    show "(tx, ty) \<in> set (List.product [0..<bd] [0..<bd])" using t by simp
    show "?Q (transpose_load bd A (int m) (int n) (bx, by) (tx, ty) mem0 blk)" for blk
      using v by (simp add: ld t)
    show "?Q (transpose_load bd A (int m) (int n) (bx, by) t' mem0 blk)"
      if "t' \<in> set (List.product [0..<bd] [0..<bd])" "?Q blk" for blk t'
    proof -
      obtain tx' ty' where t': "t' = (tx', ty')" by (cases t')
      then have "tx' < bd" "ty' < bd" using that(1) by simp_all
      then show ?thesis using that(2) by (auto simp: t' ld)
    qed
  qed
qed

lemma good_source:
  assumes "good m0 A B m n m1" and "A + m * n \<le> B \<or> B + m * n \<le> A" and "k < m * n"
  shows "m1 (A + k) = m0 (A + k)"
proof -
  have "transposed m0 A B m n (A + k) = m0 (A + k)"
    using assms(2,3) by (auto simp: transposed_def)
  then show ?thesis using assms(1) by (auto simp: good_def)
qed

lemma transposed_cell:
  assumes "r < m" and "c < n"
  shows "transposed m0 A B m n (B + (r * n + c)) = m0 (A + (c * m + r))"
proof -
  have "r * n + c < m * n" using cell_bound [OF assms(2,1)] by (simp add: mult.commute)
  then show ?thesis using assms(2) by (simp add: transposed_def)
qed

lemma good_update:
  assumes "good m0 A B m n m1"
  shows "good m0 A B m n (m1(a := transposed m0 A B m n a))"
  using assms by (auto simp: good_def)

text \<open>
  A thread of the store phase, in a block whose tile was loaded from a memory that is
  good: it stores the transposed cell, or nothing.
\<close>

lemma store_thread:
  assumes m: "m < 2 ^ 32" and n: "n < 2 ^ 32" and mn: "m * n \<le> 2 ^ 32"
    and bx: "bx * bd + bd \<le> 2 ^ 32" and "by": "by * bd + bd \<le> 2 ^ 32"
    and dj: "A + m * n \<le> B \<or> B + m * n \<le> A"
    and g: "good m0 A B m n m1"
    and t: "tx < bd" "ty < bd"
  shows "transpose_store bd B (int m) (int n) (bx, by) (tx, ty)
      (foldl (\<lambda>blk t. transpose_load bd A (int m) (int n) (bx, by) t m1 blk) blk0
        (List.product [0..<bd] [0..<bd])) m2 =
    (if by * bd + tx < n \<and> bx * bd + ty < m
     then m2(B + ((bx * bd + ty) * n + (by * bd + tx)) :=
       transposed m0 A B m n (B + ((bx * bd + ty) * n + (by * bd + tx))))
     else m2)"
proof -
  let ?T = "foldl (\<lambda>blk t. transpose_load bd A (int m) (int n) (bx, by) t m1 blk) blk0
      (List.product [0..<bd] [0..<bd])"
  have st: "transpose_store bd B (int m) (int n) (bx, by) (tx, ty) ?T m2 =
    (if by * bd + tx < n \<and> bx * bd + ty < m
     then m2(B + ((bx * bd + ty) * n + (by * bd + tx)) := ?T (tx, ty)) else m2)"
    using t bx "by" by (intro transpose_store_nat [OF m n mn]) simp_all
  show ?thesis
  proof (cases "by * bd + tx < n \<and> bx * bd + ty < m")
    case True
    then have v: "bx * bd + ty < m" "by * bd + tx < n" by simp_all
    have "?T (tx, ty) = m1 (A + ((by * bd + tx) * m + (bx * bd + ty)))"
      by (rule tile_loaded [OF m n mn bx "by" t(2,1) v])
    also have "\<dots> = m0 (A + ((by * bd + tx) * m + (bx * bd + ty)))"
      using cell_bound [OF v] by (intro good_source [OF g dj]) simp
    also have "\<dots> = transposed m0 A B m n (B + ((bx * bd + ty) * n + (by * bd + tx)))"
      using transposed_cell [OF v, of m0 A B] by simp
    finally show ?thesis using True by (simp only: st if_True)
  next
    case False
    then show ?thesis by (simp only: st if_False)
  qed
qed

lemma block_threads:
  assumes m: "m < 2 ^ 32" and n: "n < 2 ^ 32" and mn: "m * n \<le> 2 ^ 32"
    and bx: "bx * bd + bd \<le> 2 ^ 32" and "by": "by * bd + bd \<le> 2 ^ 32"
    and dj: "A + m * n \<le> B \<or> B + m * n \<le> A"
    and g: "good m0 A B m n m1"
  shows "transpose_block bd blk0 A B (int m) (int n) m1 (bx, by) =
    foldl (\<lambda>m2 t. if by * bd + fst t < n \<and> bx * bd + snd t < m
        then m2(B + ((bx * bd + snd t) * n + (by * bd + fst t)) :=
          transposed m0 A B m n (B + ((bx * bd + snd t) * n + (by * bd + fst t))))
        else m2) m1 (List.product [0..<bd] [0..<bd])"
  unfolding transpose_block_def Let_def
proof (rule foldl_cong [OF refl refl])
  fix m2 t
  assume "t \<in> set (List.product [0..<bd] [0..<bd])"
  then obtain tx ty where t: "t = (tx, ty)" "tx < bd" "ty < bd" by auto
  show "transpose_store bd B (int m) (int n) (bx, by) t
      (foldl (\<lambda>blk t. transpose_load bd A (int m) (int n) (bx, by) t m1 blk) blk0
        (List.product [0..<bd] [0..<bd])) m2 =
    (if by * bd + fst t < n \<and> bx * bd + snd t < m
        then m2(B + ((bx * bd + snd t) * n + (by * bd + fst t)) :=
          transposed m0 A B m n (B + ((bx * bd + snd t) * n + (by * bd + fst t))))
        else m2)"
    unfolding t(1) fst_conv snd_conv
    by (rule store_thread [OF m n mn bx "by" dj g t(2,3)])
qed

lemma block_good:
  assumes m: "m < 2 ^ 32" and n: "n < 2 ^ 32" and mn: "m * n \<le> 2 ^ 32"
    and bx: "bx * bd + bd \<le> 2 ^ 32" and "by": "by * bd + bd \<le> 2 ^ 32"
    and dj: "A + m * n \<le> B \<or> B + m * n \<le> A"
    and g: "good m0 A B m n m1"
  shows "good m0 A B m n (transpose_block bd blk0 A B (int m) (int n) m1 (bx, by))"
  unfolding block_threads [OF assms]
  by (rule foldl_preserve_set [where P = "good m0 A B m n"]) (simp_all add: g good_update)

lemma block_keep:
  assumes m: "m < 2 ^ 32" and n: "n < 2 ^ 32" and mn: "m * n \<le> 2 ^ 32"
    and bx: "bx * bd + bd \<le> 2 ^ 32" and "by": "by * bd + bd \<le> 2 ^ 32"
    and dj: "A + m * n \<le> B \<or> B + m * n \<le> A"
    and g: "good m0 A B m n m1"
    and a: "m1 a = transposed m0 A B m n a"
  shows "transpose_block bd blk0 A B (int m) (int n) m1 (bx, by) a = transposed m0 A B m n a"
  unfolding block_threads [OF m n mn bx "by" dj g]
  by (rule foldl_preserve_set [where P = "\<lambda>m2. m2 a = transposed m0 A B m n a"])
    (simp_all add: a)

lemma block_establish:
  assumes m: "m < 2 ^ 32" and n: "n < 2 ^ 32" and mn: "m * n \<le> 2 ^ 32"
    and bx: "(r div bd) * bd + bd \<le> 2 ^ 32" and "by": "(c div bd) * bd + bd \<le> 2 ^ 32"
    and dj: "A + m * n \<le> B \<or> B + m * n \<le> A"
    and g: "good m0 A B m n m1"
    and bd: "0 < bd" and r: "r < m" and c: "c < n"
  shows "transpose_block bd blk0 A B (int m) (int n) m1 (r div bd, c div bd) (B + (r * n + c)) =
    transposed m0 A B m n (B + (r * n + c))"
  unfolding block_threads [OF m n mn bx "by" dj g]
proof (rule foldl_establish_plain [where ?t0.0 = "(c mod bd, r mod bd)"
      and Q = "\<lambda>m2. m2 (B + (r * n + c)) = transposed m0 A B m n (B + (r * n + c))"])
  show "(c mod bd, r mod bd) \<in> set (List.product [0..<bd] [0..<bd])" using bd by simp
  show "(if c div bd * bd + fst (c mod bd, r mod bd) < n \<and>
          r div bd * bd + snd (c mod bd, r mod bd) < m
       then m2(B + ((r div bd * bd + snd (c mod bd, r mod bd)) * n +
            (c div bd * bd + fst (c mod bd, r mod bd))) :=
          transposed m0 A B m n (B + ((r div bd * bd + snd (c mod bd, r mod bd)) * n +
            (c div bd * bd + fst (c mod bd, r mod bd)))))
       else m2) (B + (r * n + c)) = transposed m0 A B m n (B + (r * n + c))" for m2
    using r c by simp
  show "(if c div bd * bd + fst t < n \<and> r div bd * bd + snd t < m
       then m2(B + ((r div bd * bd + snd t) * n + (c div bd * bd + fst t)) :=
          transposed m0 A B m n (B + ((r div bd * bd + snd t) * n + (c div bd * bd + fst t))))
       else m2) (B + (r * n + c)) = transposed m0 A B m n (B + (r * n + c))"
    if "m2 (B + (r * n + c)) = transposed m0 A B m n (B + (r * n + c))" for m2 t
    using that by auto
qed

lemma block_bound:
  assumes "bx < gx" and "gx * bd \<le> (2::nat) ^ 32"
  shows "bx * bd + bd \<le> 2 ^ 32"
proof -
  have "bx * bd + bd \<le> gx * bd" using assms(1) by (rule column_le)
  then show ?thesis using assms(2) by simp
qed

text \<open>
  The kernel refines the transposition, as long as the cell numbers of the matrix fit
  the 32-bit index arithmetic, the launch is within the limits and the grid covers the
  matrix.
\<close>

lemma transpose_kernel_transposed:
  assumes m: "m < 2 ^ 32" and n: "n < 2 ^ 32" and mn: "m * n \<le> 2 ^ 32"
    and bd: "0 < bd" and gx: "gx * bd \<le> 2 ^ 32" and gy: "gy * bd \<le> 2 ^ 32"
    and cx: "m \<le> gx * bd" and cy: "n \<le> gy * bd"
    and dj: "A + m * n \<le> B \<or> B + m * n \<le> A"
    and ok: "launch_ok (gx, gy) (bd, bd)"
  shows "transpose_kernel bd blk0 (gx, gy) A B (int m) (int n) m0 = transposed m0 A B m n"
proof
  fix a
  let ?f = "transpose_block bd blk0 A B (int m) (int n)"
  let ?bs = "List.product [0..<gx] [0..<gy]"
  have g0: "good m0 A B m n m0" by (simp add: good_def)
  have pg: "good m0 A B m n (?f m1 b)" if bb: "b \<in> set ?bs" and gg: "good m0 A B m n m1" for m1 b
  proof -
    have mem: "fst b < gx \<and> snd b < gy" using bb by auto
    obtain bx "by" where b: "b = (bx, by)" "bx < gx" "by < gy"
      using mem by (cases b) simp
    show ?thesis
      unfolding b(1)
      by (rule block_good [OF m n mn block_bound [OF b(2) gx] block_bound [OF b(3) gy] dj gg])
  qed
  have pk: "?f m1 b x = transposed m0 A B m n x"
    if bb: "b \<in> set ?bs" and gg: "good m0 A B m n m1"
      and kk: "m1 x = transposed m0 A B m n x" for m1 b x
  proof -
    have mem: "fst b < gx \<and> snd b < gy" using bb by auto
    obtain bx "by" where b: "b = (bx, by)" "bx < gx" "by < gy"
      using mem by (cases b) simp
    show ?thesis
      unfolding b(1)
      by (rule block_keep [OF m n mn block_bound [OF b(2) gx] block_bound [OF b(3) gy] dj
            gg kk])
  qed
  show "transpose_kernel bd blk0 (gx, gy) A B (int m) (int n) m0 a = transposed m0 A B m n a"
  proof (cases "B \<le> a \<and> a < B + m * n")
    case True
    then have n0: "0 < n" by (cases "n = 0") simp_all
    define r where "r = (a - B) div n"
    define c where "c = (a - B) mod n"
    have c: "c < n" using n0 by (simp add: c_def)
    have "a - B < m * n" using True by linarith
    then have r: "r < m" using n0 by (simp add: r_def less_mult_imp_div_less)
    have "a = B + (a - B)" using True by linarith
    then have a: "a = B + (r * n + c)" by (simp add: r_def c_def)
    have rx: "r div bd < gx"
      using r cx bd by (simp add: div_less_iff_less_mult)
    have ry: "c div bd < gy"
      using c cy bd by (simp add: div_less_iff_less_mult)
    have "good m0 A B m n (foldl ?f m0 ?bs) \<and>
        foldl ?f m0 ?bs (B + (r * n + c)) = transposed m0 A B m n (B + (r * n + c))"
    proof (rule foldl_establish_set [where ?t0.0 = "(r div bd, c div bd)"
          and P = "good m0 A B m n"
          and Q = "\<lambda>m1. m1 (B + (r * n + c)) = transposed m0 A B m n (B + (r * n + c))"])
      show "(r div bd, c div bd) \<in> set ?bs" using rx ry by simp
      show "good m0 A B m n m0" by (rule g0)
      show "good m0 A B m n (?f m1 b)" if "b \<in> set ?bs" "good m0 A B m n m1" for m1 b
        using that by (rule pg)
      show "?f m1 (r div bd, c div bd) (B + (r * n + c)) =
          transposed m0 A B m n (B + (r * n + c))" if "good m0 A B m n m1" for m1
        by (rule block_establish [OF m n mn block_bound [OF rx gx] block_bound [OF ry gy] dj
              that bd r c])
      show "?f m1 b (B + (r * n + c)) = transposed m0 A B m n (B + (r * n + c))"
        if "b \<in> set ?bs" "good m0 A B m n m1"
          "m1 (B + (r * n + c)) = transposed m0 A B m n (B + (r * n + c))" for m1 b
        using that by (rule pk)
    qed
    then show ?thesis by (simp add: transpose_kernel_def a ok)
  next
    case False
    then have t: "transposed m0 A B m n a = m0 a" by (auto simp: transposed_def)
    have "good m0 A B m n (foldl ?f m0 ?bs)"
      by (rule foldl_preserve_set [where P = "good m0 A B m n"]) (simp_all add: g0 pg)
    then have "foldl ?f m0 ?bs a = m0 a" using t by (auto simp: good_def)
    then show ?thesis by (simp add: transpose_kernel_def t ok)
  qed
qed

subsection \<open>The round trip of the transpose\<close>

text \<open>
  A dimension of the grid of \<^verbatim>\<open>matrix::transpose\<close>: when the matrix has at most 65535
  tiles in that direction, the dimension is within the limits of a launch and the grid
  covers the matrix.
\<close>

lemma grid_dim:
  assumes M: "0 \<le> M" and bd: "0 < bd" and sq: "bd * bd \<le> 1024"
    and lim: "M \<le> 65535 * int bd"
  shows "nat M \<le> unat (word_of_int (int32 (M - 1 + int bd) sdiv int bd) :: 32 word) * bd"
    and "unat (word_of_int (int32 (M - 1 + int bd) sdiv int bd) :: 32 word) * bd \<le> 2 ^ 32"
    and "nat M < 2 ^ 32"
    and "unat (word_of_int (int32 (M - 1 + int bd) sdiv int bd) :: 32 word) \<le> 65535"
    and "0 < M \<Longrightarrow> 0 < unat (word_of_int (int32 (M - 1 + int bd) sdiv int bd) :: 32 word)"
proof -
  let ?a = "M - 1 + int bd"
  let ?q = "?a div int bd"
  have "bd \<le> bd * bd" using bd by (cases bd) simp_all
  then have "bd \<le> 1024" using sq by (rule order_trans)
  then have "int bd \<le> int 1024" by (simp only: of_nat_le_iff)
  then have b1024: "int bd \<le> 1024" by simp
  have bdi: "0 < int bd" using bd by simp
  have a0: "0 \<le> ?a" using M bdi by linarith
  have ahi: "?a < 2 ^ 31" using lim b1024 by simp
  have "int32 ?a = ?a" using a0 ahi by (intro int32_id) simp_all
  moreover have "?a sdiv int bd = ?q" using a0 bdi by (rule sdiv_nonneg)
  ultimately have s: "int32 ?a sdiv int bd = ?q" by (simp only:)
  have q0: "0 \<le> ?q" using a0 bdi by (simp only: pos_imp_zdiv_nonneg_iff)
  have "?a mod int bd < int bd" using bdi by (rule pos_mod_bound)
  then have m1: "?a mod int bd \<le> int bd - 1" by linarith
  have d: "?q * int bd = ?a - ?a mod int bd"
    by (simp only: minus_mod_eq_div_mult)
  have lo: "M \<le> ?q * int bd" using m1 d by linarith
  have "0 \<le> ?a mod int bd" using bdi by (rule pos_mod_sign)
  then have hi: "?q * int bd \<le> ?a" using d by linarith
  have "?q * int bd < 65536 * int bd" using hi lim by linarith
  then have "?q < 65536" using bdi by (simp only: mult_less_cancel_right_pos)
  then have q65535: "?q \<le> 65535" by linarith
  then have "?q < 2 ^ 32" by simp
  then have u: "unat (word_of_int (int32 ?a sdiv int bd) :: 32 word) = nat ?q"
    unfolding s using q0 by (intro unat_of_int32)
  have e: "int (nat ?q * bd) = ?q * int bd"
    using q0 by (simp only: of_nat_mult int_nat_eq if_True)
  show "nat M \<le> unat (word_of_int (int32 ?a sdiv int bd) :: 32 word) * bd"
    unfolding u using lo e by linarith
  have "int (nat ?q * bd) < 2 ^ 31" using hi ahi e by linarith
  then have "int (nat ?q * bd) \<le> 2 ^ 32" by simp
  then have "int (nat ?q * bd) \<le> int (2 ^ 32)" by simp
  then show "unat (word_of_int (int32 ?a sdiv int bd) :: 32 word) * bd \<le> 2 ^ 32"
    unfolding u by (simp only: of_nat_le_iff)
  have "M < 2 ^ 31" using ahi bdi by linarith
  then have "M < 2 ^ 32" by simp
  then show "nat M < 2 ^ 32" using M by (simp add: nat_less_iff)
  show "unat (word_of_int (int32 ?a sdiv int bd) :: 32 word) \<le> 65535"
    unfolding u using q65535 by simp
  show "0 < unat (word_of_int (int32 ?a sdiv int bd) :: 32 word)" if "0 < M"
  proof -
    have "?q \<noteq> 0" using lo that by auto
    then have "0 < ?q" using q0 by linarith
    then show ?thesis unfolding u by simp
  qed
qed

lemma matrix_transpose_other:
  assumes "A \<noteq> B"
  shows "matrix_transpose bd blk A B M N g =
    Inr (g\<lparr>mem := transpose_kernel bd blk
      (unat (word_of_int (int32 (M - 1 + int bd) sdiv int bd) :: 32 word),
       unat (word_of_int (int32 (N - 1 + int bd) sdiv int bd) :: 32 word))
      A B M N (mem g)\<rparr>)"
  using assms by (simp add: matrix_transpose_def Let_def)

lemma transposed_empty: "m * n = 0 \<Longrightarrow> transposed m0 A B m n = m0"
  by (rule ext) (auto simp: transposed_def)

lemma transpose_grid:
  assumes M: "0 \<le> M" and N: "0 \<le> N" and bd: "0 < bd" and sq: "bd * bd \<le> 1024"
    and lM: "M \<le> 65535 * int bd" and lN: "N \<le> 65535 * int bd"
    and MN: "M * N \<le> 2 ^ 32"
    and dj: "A + nat (M * N) \<le> B \<or> B + nat (M * N) \<le> A"
  shows "transpose_kernel bd blk
      (unat (word_of_int (int32 (M - 1 + int bd) sdiv int bd) :: 32 word),
       unat (word_of_int (int32 (N - 1 + int bd) sdiv int bd) :: 32 word))
      A B M N m0 = transposed m0 A B (nat M) (nat N)"
proof -
  let ?gx = "unat (word_of_int (int32 (M - 1 + int bd) sdiv int bd) :: 32 word)"
  let ?gy = "unat (word_of_int (int32 (N - 1 + int bd) sdiv int bd) :: 32 word)"
  note gM = grid_dim [OF M bd sq lM]
  note gN = grid_dim [OF N bd sq lN]
  have mn: "nat (M * N) = nat M * nat N" using M by (simp add: nat_mult_distrib)
  have "int (nat M * nat N) = M * N" using M N by simp
  then have "int (nat M * nat N) \<le> int (2 ^ 32)" using MN by simp
  then have le: "nat M * nat N \<le> 2 ^ 32" by (simp only: of_nat_le_iff)
  show ?thesis
  proof (cases "launch_ok (?gx, ?gy) (bd, bd)")
    case True
    have "transpose_kernel bd blk (?gx, ?gy) A B (int (nat M)) (int (nat N)) m0 =
        transposed m0 A B (nat M) (nat N)"
      using dj unfolding mn
      by (intro transpose_kernel_transposed gM(1,2,3) gN(1,2,3) le bd True)
    then show ?thesis using M N by simp
  next
    case False
    then have "?gx = 0 \<or> ?gy = 0"
      using gM(4) gN(4) bd sq by (simp add: launch_ok_def)
    then have "\<not> 0 < M \<or> \<not> 0 < N" using gM(5) gN(5) by auto
    then have "nat M * nat N = 0" by auto
    then have "transposed m0 A B (nat M) (nat N) = m0" by (rule transposed_empty)
    then show ?thesis using False by (simp add: transpose_kernel_def)
  qed
qed

lemma matrix_transpose_out_of_place:
  assumes "A \<noteq> B" and "0 \<le> M" and "0 \<le> N" and "0 < bd" and "bd * bd \<le> 1024"
    and "M \<le> 65535 * int bd" and "N \<le> 65535 * int bd"
    and "M * N \<le> 2 ^ 32"
    and "A + nat (M * N) \<le> B \<or> B + nat (M * N) \<le> A"
  shows "matrix_transpose bd blk A B M N g =
    Inr (g\<lparr>mem := transposed (mem g) A B (nat M) (nat N)\<rparr>)"
  by (simp only: matrix_transpose_other [OF assms(1)] transpose_grid [OF assms(2-9)])

lemma matrix_transpose_in_place:
  assumes M: "0 \<le> M" and N: "0 \<le> N" and bd: "0 < bd" and sq: "bd * bd \<le> 1024"
    and lM: "M \<le> 65535 * int bd" and lN: "N \<le> 65535 * int bd"
    and MN: "M * N < 2 ^ 31"
    and A: "A + nat (M * N) \<le> Suc (brk g)"
    and room: "Suc (brk g) + nat (M * N) \<le> cap g"
  shows "\<exists>g1. matrix_transpose bd blk A A M N g = Inr g1 \<and>
    brk g1 = Suc (brk g) + nat (M * N) \<and> cap g1 = cap g \<and>
    (\<forall>r<nat M. \<forall>c<nat N. mem g1 (A + (r * nat N + c)) = mem g (A + (c * nat M + r)))"
proof -
  let ?C = "Suc (brk g)"
  let ?g1 = "g\<lparr>live := (?C, nat (M * N)) # live g, brk := ?C + nat (M * N)\<rparr>"
  let ?m = "vector_copy (mem g) ?C A (M * N)"
  have MN0: "0 \<le> M * N" using M N by simp
  have MN32: "M * N \<le> 2 ^ 32" using MN by simp
  have i32: "int32 (M * N) = M * N" using MN0 MN by (intro int32_id) simp_all
  have mn: "nat (M * N) = nat M * nat N" using M by (simp add: nat_mult_distrib)
  have "cudaMalloc g (int (nat (M * N))) = Some (?C, ?g1)"
    using room by (rule cudaMalloc_ok)
  then have al: "cudaMalloc g (M * N) = Some (?C, ?g1)" using MN0 by simp
  have dj: "?C + nat (M * N) \<le> A \<or> A + nat (M * N) \<le> ?C" using A by simp
  have k: "transpose_kernel bd blk
      (unat (word_of_int (int32 (M - 1 + int bd) sdiv int bd) :: 32 word),
       unat (word_of_int (int32 (N - 1 + int bd) sdiv int bd) :: 32 word))
      ?C A M N ?m = transposed ?m ?C A (nat M) (nat N)"
    by (rule transpose_grid [OF M N bd sq lM lN MN32 dj])
  have r: "matrix_transpose bd blk A A M N g =
      Inr (?g1\<lparr>mem := transposed ?m ?C A (nat M) (nat N)\<rparr>)"
    by (simp add: matrix_transpose_def Let_def i32 al k)
  have cells: "transposed ?m ?C A (nat M) (nat N) (A + (r * nat N + c)) =
      mem g (A + (c * nat M + r))" if r: "r < nat M" and c: "c < nat N" for r c
  proof -
    have "c * nat M + r < nat M * nat N" using r c by (rule cell_bound)
    then have "int (c * nat M + r) < int (nat M * nat N)" by (simp only: of_nat_less_iff)
    then have "int (c * nat M + r) < M * N" using M N by simp
    then have "?m (?C + (c * nat M + r)) = mem g (A + (c * nat M + r))"
      by (simp add: vector_copy_def in_buf_def)
    then show ?thesis by (simp only: transposed_cell [OF r c])
  qed
  show ?thesis
    unfolding r using cells by simp
qed

text \<open>Two transpositions, the second with the dimensions exchanged, are the identity.\<close>

lemma transposed_twice:
  assumes k: "k < m * n"
  shows "transposed (transposed m0 A B m n) B A' n m (A' + k) = m0 (A + k)"
proof -
  have m0: "0 < m" using k by (cases "m = 0") simp_all
  define r where "r = k div m"
  define c where "c = k mod m"
  have c: "c < m" using m0 by (simp add: c_def)
  have "k < n * m" using k by (simp add: mult.commute)
  then have r: "r < n" using m0 by (simp add: r_def less_mult_imp_div_less)
  have e: "k = r * m + c" by (simp add: r_def c_def)
  have "transposed (transposed m0 A B m n) B A' n m (A' + (r * m + c)) =
      transposed m0 A B m n (B + (c * n + r))"
    using r c by (rule transposed_cell)
  also have "\<dots> = m0 (A + (r * m + c))" using c r by (rule transposed_cell)
  finally show ?thesis by (simp only: e)
qed

lemma cell_split:
  assumes "k < m * (n::nat)"
  shows "\<exists>r c. r < n \<and> c < m \<and> k = r * m + c"
proof -
  have m0: "0 < m" using assms by (cases "m = 0") simp_all
  have "k < n * m" using assms by (simp add: mult.commute)
  then have "k div m < n" using m0 by (simp add: less_mult_imp_div_less)
  moreover have "k mod m < m" using m0 by simp
  moreover have "k = k div m * m + k mod m" by simp
  ultimately show ?thesis by blast
qed

text \<open>The kernel writes no cell that a 32-bit index cannot reach.\<close>

lemma transpose_store_frame:
  assumes "a < B \<or> B + 2 ^ 32 \<le> a"
  shows "transpose_store bd B M N b t blk m a = m a"
proof -
  have "unat w < 2 ^ 32" for w :: "32 word"
    using unsigned_less [of w, where ?'a = nat] by simp
  then have "a \<noteq> B + unat w" for w :: "32 word"
    using assms by (metis add_less_cancel_left not_add_less1 not_le)
  then show ?thesis by (simp add: transpose_store_def Let_def)
qed

lemma transpose_kernel_frame:
  assumes "a < B \<or> B + 2 ^ 32 \<le> a"
  shows "transpose_kernel bd blk grid A B M N m a = m a"
proof (cases "launch_ok grid (bd, bd)")
  case True
  have "foldl (transpose_block bd blk A B M N) m
      (List.product [0..<fst grid] [0..<snd grid]) a = m a"
  proof (rule foldl_preserve_set [where P = "\<lambda>m1. m1 a = m a"])
    show "m a = m a" by simp
  next
    fix m1 b
    assume "m1 a = m a"
    then show "transpose_block bd blk A B M N m1 b a = m a"
      unfolding transpose_block_def Let_def
      by (intro foldl_preserve_set [where P = "\<lambda>m2. m2 a = m a"])
        (simp_all add: transpose_store_frame [OF assms])
  qed
  then show ?thesis using True by (simp add: transpose_kernel_def)
next
  case False
  then show ?thesis by (simp add: transpose_kernel_def)
qed

text \<open>
  Claim C6, as amended. Let \<open>M, N \<ge> 0\<close> with \<open>M * N \<le> 2^32\<close>, let a block have at most
  1024 threads (\<open>BLOCK_DIM^2 \<le> 1024\<close>) and the matrix at most 65535 tiles in each
  direction (\<open>M, N \<le> 65535 * BLOCK_DIM\<close>), so that both launches are within the limits.
  Out of place: for buffers \<open>A\<close>, \<open>B\<close>, \<open>A'\<close> among the cells handed out before the
  call, where \<open>A\<close>, \<open>B\<close> and \<open>B\<close>, \<open>A'\<close> do not overlap (\<open>A'\<close> may be
  \<open>A\<close>), \<^verbatim>\<open>transpose(A, B, M, N)\<close> followed by \<^verbatim>\<open>transpose(B, A', N, M)\<close> returns;
  after the first call the cell \<open>B + r * N + c\<close> holds what the cell \<open>A + c * M + r\<close>
  held, and after the second every one of the \<open>M * N\<close> cells of \<open>A'\<close> holds what the
  same cell of \<open>A\<close> held before. In place: if moreover \<open>M * N < 2^31\<close>, the matrix lies in the allocated part
  of the device and the device has room for the two snapshots,
  \<^verbatim>\<open>transpose(A, A, M, N)\<close> followed by \<^verbatim>\<open>transpose(A, A, N, M)\<close> returns and leaves every
  cell of the matrix as it was.
\<close>

theorem transpose_round_trip:
  assumes M: "0 \<le> M" and N: "0 \<le> N" and bd: "0 < BLOCK_DIM"
    and sq: "BLOCK_DIM * BLOCK_DIM \<le> 1024"
    and lM: "M \<le> 65535 * int BLOCK_DIM" and lN: "N \<le> 65535 * int BLOCK_DIM"
    and MN: "M * N \<le> 2 ^ 32"
  shows "(A \<noteq> B \<and> B \<noteq> A' \<and>
      (A + nat (M * N) \<le> B \<or> B + nat (M * N) \<le> A) \<and>
      (B + nat (M * N) \<le> A' \<or> A' + nat (M * N) \<le> B) \<and>
      A + nat (M * N) \<le> Suc (brk g) \<and> B + nat (M * N) \<le> Suc (brk g) \<and>
      A' + nat (M * N) \<le> Suc (brk g) \<longrightarrow>
      (\<exists>g1 g2. matrix_transpose BLOCK_DIM block1 A B M N g = Inr g1 \<and>
         matrix_transpose BLOCK_DIM block2 B A' N M g1 = Inr g2 \<and>
         (\<forall>r<nat M. \<forall>c<nat N.
            mem g1 (B + (r * nat N + c)) = mem g (A + (c * nat M + r))) \<and>
         (\<forall>k<nat (M * N). mem g2 (A' + k) = mem g (A + k)))) \<and>
    (M * N < 2 ^ 31 \<and> A + nat (M * N) \<le> Suc (brk g) \<and>
      brk g + 2 * nat (M * N) + 2 \<le> cap g \<longrightarrow>
      (\<exists>g1 g2. matrix_transpose BLOCK_DIM block1 A A M N g = Inr g1 \<and>
         matrix_transpose BLOCK_DIM block2 A A N M g1 = Inr g2 \<and>
         (\<forall>r<nat M. \<forall>c<nat N.
            mem g1 (A + (r * nat N + c)) = mem g (A + (c * nat M + r))) \<and>
         (\<forall>k<nat (M * N). mem g2 (A + k) = mem g (A + k))))"
proof (intro conjI impI)
  have mn: "nat (M * N) = nat M * nat N" using M by (simp add: nat_mult_distrib)
  have NM: "N * M \<le> 2 ^ 32" using MN by (simp add: mult.commute)
  have nm: "nat (N * M) = nat (M * N)" by (simp add: mult.commute)
  {
    assume h: "A \<noteq> B \<and> B \<noteq> A' \<and>
      (A + nat (M * N) \<le> B \<or> B + nat (M * N) \<le> A) \<and>
      (B + nat (M * N) \<le> A' \<or> A' + nat (M * N) \<le> B) \<and>
      A + nat (M * N) \<le> Suc (brk g) \<and> B + nat (M * N) \<le> Suc (brk g) \<and>
      A' + nat (M * N) \<le> Suc (brk g)"
    let ?g1 = "g\<lparr>mem := transposed (mem g) A B (nat M) (nat N)\<rparr>"
    let ?g2 = "?g1\<lparr>mem := transposed (mem ?g1) B A' (nat N) (nat M)\<rparr>"
    have dj2: "B + nat (N * M) \<le> A' \<or> A' + nat (N * M) \<le> B" using h unfolding nm by simp
    have 1: "matrix_transpose BLOCK_DIM block1 A B M N g = Inr ?g1"
      using h by (intro matrix_transpose_out_of_place M N bd sq lM lN MN) simp_all
    have 2: "matrix_transpose BLOCK_DIM block2 B A' N M ?g1 = Inr ?g2"
      using h dj2 by (intro matrix_transpose_out_of_place M N bd sq lM lN NM) simp_all
    have 3: "\<forall>k<nat (M * N). mem ?g2 (A' + k) = mem g (A + k)"
      unfolding mn by (simp add: transposed_twice)
    have 4: "\<forall>r<nat M. \<forall>c<nat N.
        mem ?g1 (B + (r * nat N + c)) = mem g (A + (c * nat M + r))"
      by (simp add: transposed_cell)
    show "\<exists>g1 g2. matrix_transpose BLOCK_DIM block1 A B M N g = Inr g1 \<and>
         matrix_transpose BLOCK_DIM block2 B A' N M g1 = Inr g2 \<and>
         (\<forall>r<nat M. \<forall>c<nat N.
            mem g1 (B + (r * nat N + c)) = mem g (A + (c * nat M + r))) \<and>
         (\<forall>k<nat (M * N). mem g2 (A' + k) = mem g (A + k))"
      using 1 2 3 4 by blast
  }
  {
    assume h: "M * N < 2 ^ 31 \<and> A + nat (M * N) \<le> Suc (brk g) \<and>
      brk g + 2 * nat (M * N) + 2 \<le> cap g"
    have MN31: "M * N < 2 ^ 31" and NM31: "N * M < 2 ^ 31"
      using h by (simp_all add: mult.commute)
    have A1: "A + nat (M * N) \<le> Suc (brk g)" using h by simp
    have room: "Suc (brk g) + nat (M * N) \<le> cap g" using h by simp
    obtain g1 where g1: "matrix_transpose BLOCK_DIM block1 A A M N g = Inr g1"
      "brk g1 = Suc (brk g) + nat (M * N)" "cap g1 = cap g"
      "\<forall>r<nat M. \<forall>c<nat N. mem g1 (A + (r * nat N + c)) = mem g (A + (c * nat M + r))"
      using matrix_transpose_in_place [OF M N bd sq lM lN MN31 A1 room, of block1] by blast
    have A2: "A + nat (N * M) \<le> Suc (brk g1)" using h g1(2) unfolding nm by simp
    have room2: "Suc (brk g1) + nat (N * M) \<le> cap g1" using h g1(2,3) unfolding nm by simp
    obtain g2 where g2: "matrix_transpose BLOCK_DIM block2 A A N M g1 = Inr g2"
      "\<forall>r<nat N. \<forall>c<nat M. mem g2 (A + (r * nat M + c)) = mem g1 (A + (c * nat N + r))"
      using matrix_transpose_in_place [OF N M bd sq lN lM NM31 A2 room2, of block2] by blast
    have "mem g2 (A + k) = mem g (A + k)" if "k < nat (M * N)" for k
    proof -
      have "k < nat M * nat N" using that unfolding mn .
      then obtain r c where rc: "r < nat N" "c < nat M" "k = r * nat M + c"
        using cell_split by blast
      show ?thesis unfolding rc(3) using g2(2) g1(4) rc(1,2) by simp
    qed
    then show "\<exists>g1 g2. matrix_transpose BLOCK_DIM block1 A A M N g = Inr g1 \<and>
         matrix_transpose BLOCK_DIM block2 A A N M g1 = Inr g2 \<and>
         (\<forall>r<nat M. \<forall>c<nat N.
            mem g1 (A + (r * nat N + c)) = mem g (A + (c * nat M + r))) \<and>
         (\<forall>k<nat (M * N). mem g2 (A + k) = mem g (A + k))"
      using g1(1,4) g2(1) by blast
  }
qed

text \<open>
  The round trip of a 2 by 3 matrix on the device \<open>dev_mat\<close> with tiles of 16 by 16, from
  cell 1 through cell 7 to cell 13, and in place at cell 1.
\<close>

theorem transpose_round_trip_witness:
  "0 \<le> (2::int) \<and> 0 \<le> (3::int) \<and> 0 < (16::nat) \<and> (16::nat) * 16 \<le> 1024 \<and>
   (2::int) \<le> 65535 * int 16 \<and> (3::int) \<le> 65535 * int 16 \<and> (2::int) * 3 \<le> 2 ^ 32 \<and>
   13 + nat (2 * 3) \<le> Suc (brk dev_mat) \<and>
   brk dev_mat + 2 * nat (2 * 3) + 2 \<le> cap dev_mat \<and>
   (\<exists>g1 g2. matrix_transpose 16 (\<lambda>_. NaN) 1 7 2 3 dev_mat = Inr g1 \<and>
      matrix_transpose 16 (\<lambda>_. NaN) 7 13 3 2 g1 = Inr g2 \<and>
      mem g1 7 = mem dev_mat 1 \<and> mem g1 8 = mem dev_mat 3 \<and> mem g1 9 = mem dev_mat 5 \<and>
      mem g1 10 = mem dev_mat 2 \<and> mem g1 11 = mem dev_mat 4 \<and> mem g1 12 = mem dev_mat 6 \<and>
      (\<forall>k<6. mem g2 (13 + k) = mem dev_mat (1 + k))) \<and>
   (\<exists>g1 g2. matrix_transpose 16 (\<lambda>_. NaN) 1 1 2 3 dev_mat = Inr g1 \<and>
      matrix_transpose 16 (\<lambda>_. NaN) 1 1 3 2 g1 = Inr g2 \<and>
      mem g1 2 = mem dev_mat 3 \<and> mem g1 4 = mem dev_mat 2 \<and>
      (\<forall>k<6. mem g2 (1 + k) = mem dev_mat (1 + k)))"
proof -
  have h: "0 \<le> (2::int)" "0 \<le> (3::int)" "0 < (16::nat)" "(16::nat) * 16 \<le> 1024"
    "(2::int) \<le> 65535 * int 16" "(3::int) \<le> 65535 * int 16" "(2::int) * 3 \<le> 2 ^ 32"
    by simp_all
  note t = transpose_round_trip [OF h, where A = 1 and ?block1.0 = "\<lambda>_. NaN"
      and ?block2.0 = "\<lambda>_. NaN" and g = dev_mat]
  have o: "(1::nat) \<noteq> 7 \<and> (7::nat) \<noteq> 13 \<and>
      ((1::nat) + nat (2 * 3) \<le> 7 \<or> (7::nat) + nat (2 * 3) \<le> 1) \<and>
      ((7::nat) + nat (2 * 3) \<le> 13 \<or> (13::nat) + nat (2 * 3) \<le> 7) \<and>
      1 + nat (2 * 3) \<le> Suc (brk dev_mat) \<and> 7 + nat (2 * 3) \<le> Suc (brk dev_mat) \<and>
      13 + nat (2 * 3) \<le> Suc (brk dev_mat)"
    by (simp add: dev_mat_def)
  have i: "(2::int) * 3 < 2 ^ 31 \<and> (1::nat) + nat (2 * 3) \<le> Suc (brk dev_mat) \<and>
      brk dev_mat + 2 * nat (2 * 3) + 2 \<le> cap dev_mat"
    by (simp add: dev_mat_def)
  have first: "matrix_transpose 16 (\<lambda>_. NaN) 1 7 2 3 dev_mat =
      Inr (dev_mat\<lparr>mem := transposed (mem dev_mat) 1 7 (nat 2) (nat 3)\<rparr>)"
    by (rule matrix_transpose_out_of_place) simp_all
  have out: "\<exists>g1 g2. matrix_transpose 16 (\<lambda>_. NaN) 1 7 2 3 dev_mat = Inr g1 \<and>
      matrix_transpose 16 (\<lambda>_. NaN) 7 13 3 2 g1 = Inr g2 \<and>
      (\<forall>k<nat (2 * 3). mem g2 (13 + k) = mem dev_mat (1 + k))"
    using t [where B = 7 and A' = 13] o by blast
  then obtain g1 g2 where g1: "matrix_transpose 16 (\<lambda>_. NaN) 1 7 2 3 dev_mat = Inr g1"
    and g2: "matrix_transpose 16 (\<lambda>_. NaN) 7 13 3 2 g1 = Inr g2"
    and rt: "\<forall>k<nat (2 * 3). mem g2 (13 + k) = mem dev_mat (1 + k)"
    by blast
  have m1: "mem g1 = transposed (mem dev_mat) 1 7 2 3"
    using g1 unfolding first by auto
  have c: "transposed (mem dev_mat) 1 7 2 3 (7 + (0 * 3 + 0)) = mem dev_mat (1 + (0 * 2 + 0))"
    "transposed (mem dev_mat) 1 7 2 3 (7 + (0 * 3 + 1)) = mem dev_mat (1 + (1 * 2 + 0))"
    "transposed (mem dev_mat) 1 7 2 3 (7 + (0 * 3 + 2)) = mem dev_mat (1 + (2 * 2 + 0))"
    "transposed (mem dev_mat) 1 7 2 3 (7 + (1 * 3 + 0)) = mem dev_mat (1 + (0 * 2 + 1))"
    "transposed (mem dev_mat) 1 7 2 3 (7 + (1 * 3 + 1)) = mem dev_mat (1 + (1 * 2 + 1))"
    "transposed (mem dev_mat) 1 7 2 3 (7 + (1 * 3 + 2)) = mem dev_mat (1 + (2 * 2 + 1))"
    by (rule transposed_cell; simp)+
  have cells: "mem g1 7 = mem dev_mat 1" "mem g1 8 = mem dev_mat 3" "mem g1 9 = mem dev_mat 5"
    "mem g1 10 = mem dev_mat 2" "mem g1 11 = mem dev_mat 4" "mem g1 12 = mem dev_mat 6"
    using c unfolding m1 by (simp_all add: dev_mat_def)
  have rt': "\<forall>k<6. mem g2 (13 + k) = mem dev_mat (1 + k)" using rt by simp
  have out': "\<exists>g1 g2. matrix_transpose 16 (\<lambda>_. NaN) 1 7 2 3 dev_mat = Inr g1 \<and>
      matrix_transpose 16 (\<lambda>_. NaN) 7 13 3 2 g1 = Inr g2 \<and>
      mem g1 7 = mem dev_mat 1 \<and> mem g1 8 = mem dev_mat 3 \<and> mem g1 9 = mem dev_mat 5 \<and>
      mem g1 10 = mem dev_mat 2 \<and> mem g1 11 = mem dev_mat 4 \<and> mem g1 12 = mem dev_mat 6 \<and>
      (\<forall>k<6. mem g2 (13 + k) = mem dev_mat (1 + k))"
    using g1 g2 cells rt' by blast
  have inp: "\<exists>g1 g2. matrix_transpose 16 (\<lambda>_. NaN) 1 1 2 3 dev_mat = Inr g1 \<and>
      matrix_transpose 16 (\<lambda>_. NaN) 1 1 3 2 g1 = Inr g2 \<and>
      (\<forall>k<nat (2 * 3). mem g2 (1 + k) = mem dev_mat (1 + k))"
    using t [where B = 7 and A' = 13] i by blast
  then obtain h1 h2 where h1: "matrix_transpose 16 (\<lambda>_. NaN) 1 1 2 3 dev_mat = Inr h1"
    and h2: "matrix_transpose 16 (\<lambda>_. NaN) 1 1 3 2 h1 = Inr h2"
    and ri: "\<forall>k<nat (2 * 3). mem h2 (1 + k) = mem dev_mat (1 + k)"
    by blast
  have "\<exists>g1. matrix_transpose 16 (\<lambda>_. NaN) 1 1 2 3 dev_mat = Inr g1 \<and>
      brk g1 = Suc (brk dev_mat) + nat (2 * 3) \<and> cap g1 = cap dev_mat \<and>
      (\<forall>r<nat 2. \<forall>c<nat 3.
        mem g1 (1 + (r * nat 3 + c)) = mem dev_mat (1 + (c * nat 2 + r)))"
    by (rule matrix_transpose_in_place) (simp_all add: dev_mat_def)
  then have ci: "\<forall>r<nat 2. \<forall>c<nat 3.
      mem h1 (1 + (r * nat 3 + c)) = mem dev_mat (1 + (c * nat 2 + r))"
    using h1 by auto
  have icells: "mem h1 2 = mem dev_mat 3" "mem h1 4 = mem dev_mat 2"
    using ci [rule_format, of 0 1] ci [rule_format, of 1 0]
    by (simp_all add: dev_mat_def numeral_2_eq_2)
  have ri': "\<forall>k<6. mem h2 (1 + k) = mem dev_mat (1 + k)" using ri by simp
  have inp': "\<exists>g1 g2. matrix_transpose 16 (\<lambda>_. NaN) 1 1 2 3 dev_mat = Inr g1 \<and>
      matrix_transpose 16 (\<lambda>_. NaN) 1 1 3 2 g1 = Inr g2 \<and>
      mem g1 2 = mem dev_mat 3 \<and> mem g1 4 = mem dev_mat 2 \<and>
      (\<forall>k<6. mem g2 (1 + k) = mem dev_mat (1 + k))"
    using h1 h2 icells ri' by blast
  have b: "13 + nat (2 * 3) \<le> Suc (brk dev_mat)"
    "brk dev_mat + 2 * nat (2 * 3) + 2 \<le> cap dev_mat"
    by (simp_all add: dev_mat_def)
  show ?thesis
    by (intro conjI h b out' inp')
qed

text \<open>
  Claim C6 as stated fails for a 65537 by 65536 matrix, which has \<open>2^32 + 65536\<close>
  cells, with tiles of 16 by 16 (grids of 4097 by 4096 and 4096 by 4097 blocks, within
  the limits): the kernel computes \<^verbatim>\<open>index_out\<close> in \<^verbatim>\<open>unsigned int\<close>, so neither
  transpose writes a cell of index \<open>2^32\<close> or more. After the round trip from cell 1
  through cell \<open>1 + 65537 * 65536\<close> to cell \<open>1 + 2 * 65537 * 65536\<close>, the cell of index
  \<open>2^32\<close> of the result still holds \<open>0.0\<close>, while that cell of the input holds \<open>1.0\<close>.
\<close>

theorem transpose_round_trip_wraps:
  "(4294967296::nat) < nat (65537 * 65536) \<and>
   8590065665 + nat (65537 * 65536) \<le> Suc (brk dev_big) \<and>
   (\<exists>g1 g2. matrix_transpose 16 (\<lambda>_. NaN) 1 4295032833 65537 65536 dev_big = Inr g1 \<and>
      matrix_transpose 16 (\<lambda>_. NaN) 4295032833 8590065665 65536 65537 g1 = Inr g2 \<and>
      mem g2 (8590065665 + 4294967296) \<noteq> mem dev_big (1 + 4294967296))"
proof -
  have f: "transpose_kernel bd blk grid A 8590065665 M N m 12885032961 = m 12885032961"
    for bd blk grid A M N m
    by (rule transpose_kernel_frame) simp
  have f': "transpose_kernel bd blk grid A 4295032833 M N m 12885032961 = m 12885032961"
    for bd blk grid A M N m
    by (rule transpose_kernel_frame) simp
  show ?thesis
    by (simp add: matrix_transpose_other f f' dev_big_def)
qed

end
